theory Spec2Isabelle
  imports Main
begin

section \<open>Module constants (KVStore_commented.py, lines 7-33)\<close>

text \<open>
  The store is a tensor of \<open>NUMBER_OF_ENTRIES\<close> rows; a row is one flag, the chunks of a
  key and the chunks of a value. The constants carry the values of the source; the
  lemmas below use them by name, and only where a numeral is needed by value.
\<close>

definition NUMBER_OF_ENTRIES :: nat where
  "NUMBER_OF_ENTRIES = 5"

definition CHUNK_SIZE :: nat where
  "CHUNK_SIZE = 4"

definition KEY_SIZE :: nat where
  "KEY_SIZE = 32"

definition VALUE_SIZE :: nat where
  "VALUE_SIZE = 32"

definition NUMBER_OF_KEY_CHUNKS :: nat where
  "NUMBER_OF_KEY_CHUNKS = KEY_SIZE div CHUNK_SIZE"

definition NUMBER_OF_VALUE_CHUNKS :: nat where
  "NUMBER_OF_VALUE_CHUNKS = VALUE_SIZE div CHUNK_SIZE"

definition STATE_SHAPE :: "nat \<times> nat" where
  "STATE_SHAPE = (NUMBER_OF_ENTRIES, 1 + NUMBER_OF_KEY_CHUNKS + NUMBER_OF_VALUE_CHUNKS)"

text \<open>
  The indexers: \<open>FLAG = 0\<close> is a column, \<open>KEY = slice(1, 1 + NUMBER_OF_KEY_CHUNKS)\<close> and
  \<open>VALUE = slice(1 + NUMBER_OF_KEY_CHUNKS, None)\<close> are column ranges. A slice is its start
  and its stop, \<open>None\<close> for "to the end of the row".
\<close>

type_synonym slice = "nat \<times> nat option"

definition FLAG :: nat where
  "FLAG = 0"

definition KEY :: slice where
  "KEY = (1, Some (1 + NUMBER_OF_KEY_CHUNKS))"

definition VALUE :: slice where
  "VALUE = (1 + NUMBER_OF_KEY_CHUNKS, None)"

section \<open>Errors\<close>

text \<open>
  The exceptions the modelled code can meet: \<open>ValueError\<close> is Python's, from \<open>int(block, 2)\<close>
  on a string that is no binary numeral; \<open>LookupTableError\<close> is a table lookup at an
  index the table does not have; \<open>ShapeError\<close> is an argument whose shape is not the one
  the circuit was compiled for (the input sets of \<open>KeyValueDatabase.__init__\<close>).
\<close>

datatype error = ValueError | LookupTableError | ShapeError

fun mapM :: "('a \<Rightarrow> error + 'b) \<Rightarrow> 'a list \<Rightarrow> error + 'b list" where
  "mapM f [] = Inr []"
| "mapM f (x # xs) =
     (case f x of
        Inl e \<Rightarrow> Inl e
      | Inr y \<Rightarrow> (case mapM f xs of Inl e \<Rightarrow> Inl e | Inr ys \<Rightarrow> Inr (y # ys)))"

section \<open>The chunk codec (lines 46-67)\<close>

subsection \<open>Python and NumPy primitives used by \<open>encode\<close>\<close>

definition bit_char :: "nat \<Rightarrow> char" where
  "bit_char d = (if d = 0 then CHR ''0'' else CHR ''1'')"

text \<open>\<open>py_bin n\<close> is Python's \<open>bin(n)[2:]\<close> for \<open>n \<ge> 0\<close>: most significant digit first,
  \<open>''0''\<close> for zero.\<close>

fun py_bin :: "nat \<Rightarrow> string" where
  "py_bin n = (if n < 2 then [bit_char n] else py_bin (n div 2) @ [bit_char (n mod 2)])"

declare py_bin.simps [simp del]

text \<open>
  \<open>np.binary_repr(num, width=width)\<close> as NumPy 1.x computes it (the NumPy of
  \<open>concrete.numpy\<close>), called with a width as \<open>encode\<close> does:
  \<^item> zero is \<open>'0' * (width or 1)\<close>;
  \<^item> a positive number is \<open>bin(num)[2:].zfill(max(binwidth, width))\<close>: a width that is
    too small is ignored (with a deprecation warning, which is no exception);
  \<^item> a negative number is its two's complement: with \<open>poswidth\<close> the length of
    \<open>bin(-num)[2:]\<close>, less one when \<open>-num\<close> is the power of two \<open>2 ** (poswidth - 1)\<close>,
    the digits of \<open>2 ** (poswidth + 1) + num\<close> padded with ones to the width.
\<close>

definition binary_repr :: "int \<Rightarrow> nat \<Rightarrow> string" where
  "binary_repr num width =
     (if num = 0 then replicate (if width = 0 then 1 else width) (CHR ''0'')
      else if num > 0 then
        (let binary = py_bin (nat num);
             binwidth = length binary;
             outwidth = max binwidth width
         in replicate (outwidth - binwidth) (CHR ''0'') @ binary)
      else
        (let poswidth = length (py_bin (nat (- num)));
             poswidth = (if (2::int) ^ (poswidth - 1) = - num then poswidth - 1 else poswidth);
             twocomp = (2::int) ^ (poswidth + 1) + num;
             binary = py_bin (nat twocomp);
             binwidth = length binary;
             outwidth = max binwidth width
         in replicate (outwidth - binwidth) (CHR ''1'') @ binary))"

text \<open>\<open>range(0, stop, step)\<close> for a positive step.\<close>

definition range_step :: "nat \<Rightarrow> nat \<Rightarrow> nat list" where
  "range_step stop step = map (\<lambda>j. j * step) [0..<(stop + step - 1) div step]"

text \<open>
  \<open>int(block, 2)\<close> on a string of binary digits. Python raises \<open>ValueError\<close> on the empty
  string and on any other character (the strings of \<open>binary_repr\<close> have neither sign nor
  prefix).
\<close>

definition bits_value :: "string \<Rightarrow> int" where
  "bits_value s = foldl (\<lambda>acc c. 2 * acc + (if c = CHR ''1'' then 1 else 0)) 0 s"

definition is_bit :: "char \<Rightarrow> bool" where
  "is_bit c = (c = CHR ''0'' \<or> c = CHR ''1'')"

definition int_base2 :: "string \<Rightarrow> error + int" where
  "int_base2 block =
     (if block \<noteq> [] \<and> list_all is_bit block then Inr (bits_value block) else Inl ValueError)"

subsection \<open>\<open>encode\<close> and \<open>decode\<close>\<close>

text \<open>
  \<^verbatim>\<open>
  def encode(number: int, width: int) -> np.array:
      binary_repr = np.binary_repr(number, width=width)
      blocks = [binary_repr[i:i+CHUNK_SIZE] for i in range(0, len(binary_repr), CHUNK_SIZE)]
      return np.array([int(block, 2) for block in blocks])
  \<close>
  \<open>blocks_of\<close> is the list comprehension: the slices \<open>binary_repr[i:i+CHUNK_SIZE]\<close> at the
  multiples \<open>i\<close> of \<open>CHUNK_SIZE\<close> below the length.
\<close>

definition blocks_of :: "string \<Rightarrow> string list" where
  "blocks_of repr = map (\<lambda>i. take CHUNK_SIZE (drop i repr)) (range_step (length repr) CHUNK_SIZE)"

definition encode :: "int \<Rightarrow> nat \<Rightarrow> error + int list" where
  "encode number width =
     (let repr = binary_repr number width;
          blocks = blocks_of repr
      in mapM int_base2 blocks)"

definition encode_key :: "int \<Rightarrow> error + int list" where
  "encode_key number = encode number KEY_SIZE"

definition encode_value :: "int \<Rightarrow> error + int list" where
  "encode_value number = encode number VALUE_SIZE"

text \<open>
  \<open>np.int64\<close> arithmetic on scalars wraps around on overflow (NumPy warns, which is no
  exception): \<open>wrap_int64 x\<close> is the 64-bit two's complement value that \<open>x\<close> wraps to, and
  \<open>fits_int64 x\<close> says that \<open>x\<close> is one already.
\<close>

definition fits_int64 :: "int \<Rightarrow> bool" where
  "fits_int64 x = (- (2 ^ 63) \<le> x \<and> x < 2 ^ 63)"

definition wrap_int64 :: "int \<Rightarrow> int" where
  "wrap_int64 x = (x + 2 ^ 63) mod 2 ^ 64 - 2 ^ 63"

text \<open>
  \<^verbatim>\<open>
  def decode(encoded_number: np.array) -> int:
      result = 0
      for i in range(len(encoded_number)):
          result += 2**(CHUNK_SIZE*i) * encoded_number[(len(encoded_number) - i) - 1]
      return result
  \<close>
  The loop is a fold over the indices; the index read is in range for every \<open>i\<close> of the loop.
  The elements of the array are \<open>np.int64\<close> scalars, and \<open>2**(CHUNK_SIZE*i)\<close> is a Python
  integer. NumPy 1.x converts a Python integer that fits 64 bits to \<open>np.int64\<close>: as long as
  the power fits (up to \<open>2**60\<close>, the sixteen lowest chunks), the product and the sum are
  \<open>np.int64\<close> operations, and they wrap. For a power that does not fit (from \<open>2**64\<close> on;
  the powers of \<open>2 ** CHUNK_SIZE\<close> skip \<open>2**63\<close>), NumPy computes the product on Python
  objects, which is exact; the sum with such a product is exact as well (a product of zero
  is added as \<open>np.int64\<close> and changes nothing).
\<close>

definition decode :: "int list \<Rightarrow> int" where
  "decode encoded_number =
     fold (\<lambda>i result.
             (let power = 2 ^ (CHUNK_SIZE * i);
                  chunk = encoded_number ! ((length encoded_number - i) - 1)
              in if fits_int64 power then wrap_int64 (result + wrap_int64 (power * chunk))
                 else result + power * chunk))
       [0..<length encoded_number] 0"

section \<open>The lookup table (lines 81; KVStore_4bit.py lines 33-35)\<close>

text \<open>
  \<open>keep_selected_lut = cnp.LookupTable([0 for _ in range(16)] + [i for i in range(16)])\<close>;
  \<open>lut2\<close> of KVStore_4bit.py is the same table. A lookup \<open>table[index]\<close> indexes the array
  of the table as NumPy does: an index from \<open>-len(table)\<close> to \<open>-1\<close> counts from the end of
  the table, and any other index that the table does not have is an error.
\<close>

definition keep_selected_lut :: "int list" where
  "keep_selected_lut = map (\<lambda>_. 0) [0..<16] @ map int [0..<16]"

definition lut2 :: "int list" where
  "lut2 = map (\<lambda>_. 0) [0..<16] @ map int [0..<16]"

definition lookup :: "int list \<Rightarrow> int \<Rightarrow> error + int" where
  "lookup table index =
     (if 0 \<le> index \<and> index < int (length table) then Inr (table ! nat index)
      else if - int (length table) \<le> index \<and> index < 0
        then Inr (table ! nat (index + int (length table)))
      else Inl LookupTableError)"

section \<open>Tensors\<close>

text \<open>
  A two-dimensional array is the list of its rows. \<open>has_shape\<close> is \<open>array.shape == shape\<close>,
  \<open>zeros\<close> is \<open>cnp.zeros(shape)\<close>, \<open>get_column c t\<close> is \<open>t[:, c]\<close>, \<open>set_column c t v\<close>
  is the array after \<open>t[:, c] = v\<close>, and \<open>get_slice\<close> and \<open>set_slice\<close> are the same for a
  column range. Entries are unbounded integers where the source has \<open>np.int64\<close>, whose
  arithmetic wraps outside the 64-bit range: the sum \<open>state + state_update\<close> of
  \<open>_insert_impl\<close> does at an entry within \<open>2 ** CHUNK_SIZE\<close> of \<open>2 ** 63\<close>. No table made
  of flags and chunks has such an entry.
\<close>

definition has_shape :: "nat \<times> nat \<Rightarrow> 'a list list \<Rightarrow> bool" where
  "has_shape shape t = (length t = fst shape \<and> list_all (\<lambda>row. length row = snd shape) t)"

definition zeros :: "nat \<times> nat \<Rightarrow> int list list" where
  "zeros shape = replicate (fst shape) (replicate (snd shape) 0)"

definition get_column :: "nat \<Rightarrow> 'a list list \<Rightarrow> 'a list" where
  "get_column c t = map (\<lambda>row. row ! c) t"

definition set_column :: "nat \<Rightarrow> 'a list list \<Rightarrow> 'a list \<Rightarrow> 'a list list" where
  "set_column c t v = map2 (\<lambda>row x. row[c := x]) t v"

definition get_slice :: "slice \<Rightarrow> 'a list list \<Rightarrow> 'a list list" where
  "get_slice s t =
     map (\<lambda>row. case snd s of
                  None \<Rightarrow> drop (fst s) row
                | Some stop \<Rightarrow> take (stop - fst s) (drop (fst s) row)) t"

definition set_slice :: "slice \<Rightarrow> 'a list list \<Rightarrow> 'a list list \<Rightarrow> 'a list list" where
  "set_slice s t v =
     map2 (\<lambda>row xs. take (fst s) row @ xs @ (case snd s of None \<Rightarrow> [] | Some stop \<Rightarrow> drop stop row))
       t v"

text \<open>\<open>table[indices]\<close> for a two-dimensional array of indices: every entry is looked up.\<close>

definition lookup_all :: "int list \<Rightarrow> int list list \<Rightarrow> error + int list list" where
  "lookup_all table indices = mapM (mapM (lookup table)) indices"

text \<open>\<open>np.sum(t, axis=0)\<close> of an array with \<open>n\<close> columns: the sum of its rows.\<close>

definition sum_axis0 :: "nat \<Rightarrow> int list list \<Rightarrow> int list" where
  "sum_axis0 n t = foldr (map2 (+)) t (replicate n 0)"

section \<open>The circuits (lines 96-231)\<close>

subsection \<open>\<open>_insert_impl\<close>\<close>

text \<open>
  The loop of \<open>_insert_impl\<close> over \<open>range(NUMBER_OF_ENTRIES)\<close>:
  \<^verbatim>\<open>
      packed_flag_and_found = (found * 2) + flags[i]
      is_selected = (packed_flag_and_found == 0)
      selection[i] = is_selected
      found += is_selected
  \<close>
  The comparison is a boolean that the arithmetic reads as 0 or 1.
\<close>

fun selection_loop :: "int list \<Rightarrow> nat list \<Rightarrow> int list \<times> int \<Rightarrow> int list \<times> int" where
  "selection_loop flags [] (selection, found) = (selection, found)"
| "selection_loop flags (i # rest) (selection, found) =
     (let packed_flag_and_found = (found * 2) + flags ! i;
          is_selected = (if packed_flag_and_found = 0 then 1 else 0)
      in selection_loop flags rest (selection[i := is_selected], found + is_selected))"

text \<open>
  The arguments are the tensors the circuit is compiled for: a state of \<open>STATE_SHAPE\<close>, a
  key of \<open>NUMBER_OF_KEY_CHUNKS\<close> chunks and a value of \<open>NUMBER_OF_VALUE_CHUNKS\<close> chunks;
  any other shape is \<open>ShapeError\<close>. \<open>selection.reshape((-1, 1))\<close> makes the products below
  broadcast: row \<open>i\<close> of \<open>selection * (2 ** CHUNK_SIZE) + key\<close> is
  \<open>selection[i] * 2 ** CHUNK_SIZE + key[j]\<close> for every chunk \<open>j\<close>.
\<close>

definition insert_impl :: "int list list \<Rightarrow> int list \<Rightarrow> int list \<Rightarrow> error + int list list" where
  "insert_impl state key value =
     (if has_shape STATE_SHAPE state \<and> length key = NUMBER_OF_KEY_CHUNKS
         \<and> length value = NUMBER_OF_VALUE_CHUNKS then
        (let flags = get_column FLAG state;
             selection = replicate NUMBER_OF_ENTRIES 0;
             found = 0;
             (selection, found) = selection_loop flags [0..<NUMBER_OF_ENTRIES] (selection, found);
             state_update = zeros STATE_SHAPE;
             state_update = set_column FLAG state_update selection;
             packed_selection_and_key = map (\<lambda>s. map (\<lambda>k. s * 2 ^ CHUNK_SIZE + k) key) selection
         in case lookup_all keep_selected_lut packed_selection_and_key of
              Inl e \<Rightarrow> Inl e
            | Inr key_update \<Rightarrow>
                (let packed_selection_and_value =
                       map (\<lambda>s. map (\<lambda>v. s * 2 ^ CHUNK_SIZE + v) value) selection
                 in case lookup_all keep_selected_lut packed_selection_and_value of
                      Inl e \<Rightarrow> Inl e
                    | Inr value_update \<Rightarrow>
                        (let state_update = set_slice KEY state_update key_update;
                             state_update = set_slice VALUE state_update value_update;
                             new_state = map2 (map2 (+)) state state_update
                         in Inr new_state)))
      else Inl ShapeError)"

subsection \<open>\<open>_replace_impl\<close> and \<open>_query_impl\<close>\<close>

text \<open>
  Both compute
  \<open>selection = (np.sum((keys - key) == 0, axis=1) == NUMBER_OF_KEY_CHUNKS).reshape((-1, 1))\<close>:
  per row, the number of chunks whose difference with the key's is zero, compared with the
  number of key chunks. The flag of the row is not read.
\<close>

definition key_selection :: "int list list \<Rightarrow> int list \<Rightarrow> int list" where
  "key_selection keys key =
     map (\<lambda>row. if sum_list (map (\<lambda>d. if d = 0 then 1 else 0) (map2 (-) row key))
                    = int NUMBER_OF_KEY_CHUNKS
                 then 1 else 0) keys"

text \<open>\<open>_replace_impl\<close> assigns the new values to \<open>state[:, VALUE]\<close> and returns the state.\<close>

definition replace_impl :: "int list list \<Rightarrow> int list \<Rightarrow> int list \<Rightarrow> error + int list list" where
  "replace_impl state key value =
     (if has_shape STATE_SHAPE state \<and> length key = NUMBER_OF_KEY_CHUNKS
         \<and> length value = NUMBER_OF_VALUE_CHUNKS then
        (let keys = get_slice KEY state;
             values = get_slice VALUE state;
             selection = key_selection keys key;
             packed_selection_and_value =
               map (\<lambda>s. map (\<lambda>v. s * 2 ^ CHUNK_SIZE + v) value) selection
         in case lookup_all keep_selected_lut packed_selection_and_value of
              Inl e \<Rightarrow> Inl e
            | Inr set_value \<Rightarrow>
                (let inverse_selection = map (\<lambda>s. 1 - s) selection;
                     packed_inverse_selection_and_values =
                       map2 (\<lambda>s vs. map (\<lambda>v. s * 2 ^ CHUNK_SIZE + v) vs) inverse_selection values
                 in case lookup_all keep_selected_lut packed_inverse_selection_and_values of
                      Inl e \<Rightarrow> Inl e
                    | Inr kept_values \<Rightarrow>
                        (let new_values = map2 (map2 (+)) kept_values set_value
                         in Inr (set_slice VALUE state new_values))))
      else Inl ShapeError)"

text \<open>\<open>_query_impl\<close> returns \<open>cnp.array([found, *value])\<close> and assigns nothing.\<close>

definition query_impl :: "int list list \<Rightarrow> int list \<Rightarrow> error + int list" where
  "query_impl state key =
     (if has_shape STATE_SHAPE state \<and> length key = NUMBER_OF_KEY_CHUNKS then
        (let keys = get_slice KEY state;
             values = get_slice VALUE state;
             selection = key_selection keys key;
             found = sum_list selection;
             packed_selection_and_values =
               map2 (\<lambda>s vs. map (\<lambda>v. s * 2 ^ CHUNK_SIZE + v) vs) selection values
         in case lookup_all keep_selected_lut packed_selection_and_values of
              Inl e \<Rightarrow> Inl e
            | Inr value_selection \<Rightarrow>
                (let value = sum_axis0 NUMBER_OF_VALUE_CHUNKS value_selection
                 in Inr (found # value)))
      else Inl ShapeError)"

section \<open>The database (lines 234-406)\<close>

text \<open>
  \<open>KeyValueDatabase\<close> holds the state; \<open>__init__\<close> sets it to \<open>np.zeros(STATE_SHAPE)\<close>. A
  method runs its circuit on the state and the encoded arguments
  (\<open>encrypt_run_decrypt\<close>, which returns what the compiled function returns) and, for
  \<open>insert\<close> and \<open>replace\<close>, stores the result as the new state. \<open>query\<close> returns \<open>None\<close> when
  \<open>result[0] == 0\<close> and \<open>decode(result[1:])\<close> otherwise; it is modelled as returning the
  database beside its answer, so that what it leaves of the state can be stated.
\<close>

record KeyValueDatabase =
  db_state :: "int list list"

definition KeyValueDatabase_init :: KeyValueDatabase where
  "KeyValueDatabase_init = \<lparr> db_state = zeros STATE_SHAPE \<rparr>"

definition KeyValueDatabase_insert :: "KeyValueDatabase \<Rightarrow> int \<Rightarrow> int \<Rightarrow> error + KeyValueDatabase" where
  "KeyValueDatabase_insert self key value =
     (case encode_key key of
        Inl e \<Rightarrow> Inl e
      | Inr k \<Rightarrow>
          (case encode_value value of
             Inl e \<Rightarrow> Inl e
           | Inr v \<Rightarrow>
               (case insert_impl (db_state self) k v of
                  Inl e \<Rightarrow> Inl e
                | Inr new_state \<Rightarrow> Inr (self\<lparr>db_state := new_state\<rparr>))))"

definition KeyValueDatabase_replace :: "KeyValueDatabase \<Rightarrow> int \<Rightarrow> int \<Rightarrow> error + KeyValueDatabase" where
  "KeyValueDatabase_replace self key value =
     (case encode_key key of
        Inl e \<Rightarrow> Inl e
      | Inr k \<Rightarrow>
          (case encode_value value of
             Inl e \<Rightarrow> Inl e
           | Inr v \<Rightarrow>
               (case replace_impl (db_state self) k v of
                  Inl e \<Rightarrow> Inl e
                | Inr new_state \<Rightarrow> Inr (self\<lparr>db_state := new_state\<rparr>))))"

definition KeyValueDatabase_query :: "KeyValueDatabase \<Rightarrow> int \<Rightarrow> error + (KeyValueDatabase \<times> int option)" where
  "KeyValueDatabase_query self key =
     (case encode_key key of
        Inl e \<Rightarrow> Inl e
      | Inr k \<Rightarrow>
          (case query_impl (db_state self) k of
             Inl e \<Rightarrow> Inl e
           | Inr result \<Rightarrow>
               (if result ! 0 = 0 then Inr (self, None)
                else Inr (self, Some (decode (drop 1 result))))))"

section \<open>The one-chunk store (KVStore_4bit.py)\<close>

text \<open>
  KVStore_4bit.py is the same store with \<open>KEY_SIZE = VALUE_SIZE = 4\<close>: a row is its flag,
  one key chunk and one value chunk. \<open>NUMBER_OF_ENTRIES\<close>, \<open>CHUNK_SIZE\<close> and \<open>FLAG\<close> have the
  values of KVStore_commented.py and are shared; the constants that differ carry the
  suffix \<open>_4bit\<close>. \<open>STATE_SHAPE\<close> is written \<open>(NUMBER_OF_ENTRIES, 1 + 1 + 1)\<close> there.
\<close>

definition KEY_SIZE_4bit :: nat where
  "KEY_SIZE_4bit = 4"

definition VALUE_SIZE_4bit :: nat where
  "VALUE_SIZE_4bit = 4"

definition NUMBER_OF_KEY_CHUNKS_4bit :: nat where
  "NUMBER_OF_KEY_CHUNKS_4bit = KEY_SIZE_4bit div CHUNK_SIZE"

definition NUMBER_OF_VALUE_CHUNKS_4bit :: nat where
  "NUMBER_OF_VALUE_CHUNKS_4bit = VALUE_SIZE_4bit div CHUNK_SIZE"

definition KEY_4bit :: slice where
  "KEY_4bit = (1, Some (1 + NUMBER_OF_KEY_CHUNKS_4bit))"

definition VALUE_4bit :: slice where
  "VALUE_4bit = (1 + NUMBER_OF_KEY_CHUNKS_4bit, None)"

definition STATE_SHAPE_4bit :: "nat \<times> nat" where
  "STATE_SHAPE_4bit = (NUMBER_OF_ENTRIES, 1 + 1 + 1)"

text \<open>\<open>lut_zero = cnp.LookupTable([1, 0, 0, 0])\<close>: one at index 0, the test "flag is 0 and
  nothing found yet" of the selection loop.\<close>

definition lut_zero :: "int list" where
  "lut_zero = [1, 0, 0, 0]"

text \<open>
  The loop of \<open>_insert_impl\<close> in KVStore_4bit.py:
  \<^verbatim>\<open>
      selection_i = lut_zero[(found * 2) + flags[i]]
      selection[i] = selection_i
      found += selection_i
  \<close>
  A lookup outside the four entries is an error and ends the loop.
\<close>

fun selection_loop_4bit :: "int list \<Rightarrow> nat list \<Rightarrow> int list \<times> int \<Rightarrow> error + (int list \<times> int)" where
  "selection_loop_4bit flags [] (selection, found) = Inr (selection, found)"
| "selection_loop_4bit flags (i # rest) (selection, found) =
     (case lookup lut_zero ((found * 2) + flags ! i) of
        Inl e \<Rightarrow> Inl e
      | Inr selection_i \<Rightarrow>
          selection_loop_4bit flags rest (selection[i := selection_i], found + selection_i))"

definition insert_impl_4bit :: "int list list \<Rightarrow> int list \<Rightarrow> int list \<Rightarrow> error + int list list" where
  "insert_impl_4bit state key value =
     (if has_shape STATE_SHAPE_4bit state \<and> length key = NUMBER_OF_KEY_CHUNKS_4bit
         \<and> length value = NUMBER_OF_VALUE_CHUNKS_4bit then
        (let flags = get_column FLAG state;
             selection = replicate NUMBER_OF_ENTRIES 0;
             found = 0
         in case selection_loop_4bit flags [0..<NUMBER_OF_ENTRIES] (selection, found) of
              Inl e \<Rightarrow> Inl e
            | Inr (selection, found) \<Rightarrow>
                (let diff = zeros STATE_SHAPE_4bit;
                     diff = set_column FLAG diff selection
                 in case lookup_all lut2 (map (\<lambda>s. map (\<lambda>k. s * 2 ^ CHUNK_SIZE + k) key) selection) of
                      Inl e \<Rightarrow> Inl e
                    | Inr key_diff \<Rightarrow>
                        (case lookup_all lut2 (map (\<lambda>s. map (\<lambda>v. s * 2 ^ CHUNK_SIZE + v) value) selection) of
                           Inl e \<Rightarrow> Inl e
                         | Inr val_diff \<Rightarrow>
                             (let diff = set_slice KEY_4bit diff key_diff;
                                  diff = set_slice VALUE_4bit diff val_diff
                              in Inr (map2 (map2 (+)) state diff)))))
      else Inl ShapeError)"

text \<open>
  The loop of \<open>_replace_impl\<close> in KVStore_4bit.py, \<open>selection[i] = (keys[i] - key == 0)\<close>:
  \<open>keys[i]\<close> and \<open>key\<close> are arrays of the one key chunk, and the one entry of the comparison
  is what the assignment stores.
\<close>

fun key_loop_4bit :: "int list list \<Rightarrow> int list \<Rightarrow> nat list \<Rightarrow> int list \<Rightarrow> int list" where
  "key_loop_4bit keys key [] selection = selection"
| "key_loop_4bit keys key (i # rest) selection =
     key_loop_4bit keys key rest
       (selection[i := map (\<lambda>d. if d = 0 then 1 else 0) (map2 (-) (keys ! i) key) ! 0])"

text \<open>\<open>_replace_impl\<close> of KVStore_4bit.py builds the new state from zeros: the flags and the
  keys of the old state, and the new values.\<close>

definition replace_impl_4bit :: "int list list \<Rightarrow> int list \<Rightarrow> int list \<Rightarrow> error + int list list" where
  "replace_impl_4bit state key value =
     (if has_shape STATE_SHAPE_4bit state \<and> length key = NUMBER_OF_KEY_CHUNKS_4bit
         \<and> length value = NUMBER_OF_VALUE_CHUNKS_4bit then
        (let keys = get_slice KEY_4bit state;
             values = get_slice VALUE_4bit state;
             selection = replicate NUMBER_OF_ENTRIES 0;
             selection = key_loop_4bit keys key [0..<NUMBER_OF_ENTRIES] selection;
             inverse_selection = map (\<lambda>s. 1 - s) selection
         in case lookup_all lut2 (map (\<lambda>s. map (\<lambda>v. s * 2 ^ CHUNK_SIZE + v) value) selection) of
              Inl e \<Rightarrow> Inl e
            | Inr set_value \<Rightarrow>
                (case lookup_all lut2
                        (map2 (\<lambda>s vs. map (\<lambda>v. s * 2 ^ CHUNK_SIZE + v) vs) inverse_selection values) of
                   Inl e \<Rightarrow> Inl e
                 | Inr kept_values \<Rightarrow>
                     (let new_value = map2 (map2 (+)) set_value kept_values;
                          new_state = zeros STATE_SHAPE_4bit;
                          new_state = set_column FLAG new_state (get_column FLAG state);
                          new_state = set_slice KEY_4bit new_state (get_slice KEY_4bit state);
                          new_state = set_slice VALUE_4bit new_state new_value
                      in Inr new_state)))
      else Inl ShapeError)"

section \<open>Vocabulary of the properties\<close>

text \<open>
  A key or a value within its configured width, as the circuits receive it: \<open>n\<close> chunks,
  each in \<open>[0, 2 ^ CHUNK_SIZE)\<close>.
\<close>

definition chunks_ok :: "nat \<Rightarrow> int list \<Rightarrow> bool" where
  "chunks_ok n chunks = (length chunks = n \<and> list_all (\<lambda>c. 0 \<le> c \<and> c < 2 ^ CHUNK_SIZE) chunks)"

text \<open>
  The number that a list of chunks writes in base \<open>2 ^ CHUNK_SIZE\<close>, most significant
  chunk first.
\<close>

fun chunks_value :: "int list \<Rightarrow> int" where
  "chunks_value [] = 0"
| "chunks_value (c # cs) = c * 2 ^ (CHUNK_SIZE * length cs) + chunks_value cs"

text \<open>
  A run of inserts, each on the state the one before returned, as \<open>KeyValueDatabase.insert\<close>
  stores each result as the new state. An error ends the run.
\<close>

fun insert_all :: "int list list \<Rightarrow> (int list \<times> int list) list \<Rightarrow> error + int list list" where
  "insert_all state [] = Inr state"
| "insert_all state ((key, value) # rest) =
     (case insert_impl state key value of
        Inl e \<Rightarrow> Inl e
      | Inr new_state \<Rightarrow> insert_all new_state rest)"

section \<open>Facts about the constants and the lookup table\<close>

lemma CHUNK_SIZE_pos: "0 < CHUNK_SIZE"
  by (simp add: CHUNK_SIZE_def)

lemma two_pow_CHUNK_SIZE: "(2::int) ^ CHUNK_SIZE = 16"
  by (simp add: CHUNK_SIZE_def)

lemma length_keep_selected_lut: "length keep_selected_lut = 32"
  by (simp add: keep_selected_lut_def)

lemma keep_selected_lut_low:
  assumes "i < 16"
  shows "keep_selected_lut ! i = 0"
  using assms by (simp add: keep_selected_lut_def nth_append)

lemma keep_selected_lut_high:
  assumes "i < 16"
  shows "keep_selected_lut ! (16 + i) = int i"
  using assms by (simp add: keep_selected_lut_def nth_append)

lemma lookup_keep_selected:
  assumes "s = 0 \<or> s = 1" and "0 \<le> v" and "v < 16"
  shows "lookup keep_selected_lut (s * 16 + v) = Inr (s * v)"
proof -
  from assms(2,3) have n: "nat v < 16" by simp
  from assms(1) show ?thesis
  proof
    assume "s = 0"
    with assms n show ?thesis
      by (simp add: lookup_def length_keep_selected_lut keep_selected_lut_low)
  next
    assume s: "s = 1"
    from assms(2) have "nat (16 + v) = 16 + nat v" by simp
    with s assms n show ?thesis
      by (simp add: lookup_def length_keep_selected_lut keep_selected_lut_high)
  qed
qed

text \<open>
  Claim C7. For a selector that is 0 or 1 and a value in \<open>[0, 2 ^ CHUNK_SIZE)\<close>, the lookup
  at index \<open>selector * 2 ^ CHUNK_SIZE + value\<close> in \<open>keep_selected_lut\<close>, and in \<open>lut2\<close>, is
  the product \<open>selector * value\<close>; the table has \<open>2 * 2 ^ CHUNK_SIZE\<close> entries, its lower
  half is all zero and its upper half is the identity.
\<close>

theorem masked_select_forms_agree:
  assumes "selector = 0 \<or> selector = 1" and "0 \<le> v" and "v < 2 ^ CHUNK_SIZE"
  shows "lookup keep_selected_lut (selector * 2 ^ CHUNK_SIZE + v) = Inr (selector * v)
       \<and> lookup lut2 (selector * 2 ^ CHUNK_SIZE + v) = Inr (selector * v)
       \<and> length keep_selected_lut = 2 * 2 ^ CHUNK_SIZE
       \<and> take (2 ^ CHUNK_SIZE) keep_selected_lut = replicate (2 ^ CHUNK_SIZE) 0
       \<and> drop (2 ^ CHUNK_SIZE) keep_selected_lut = map int [0..<2 ^ CHUNK_SIZE]"
proof -
  have same: "lut2 = keep_selected_lut"
    by (simp add: lut2_def keep_selected_lut_def)
  have l: "lookup keep_selected_lut (selector * 2 ^ CHUNK_SIZE + v) = Inr (selector * v)"
    using assms lookup_keep_selected [of selector v] by (simp add: two_pow_CHUNK_SIZE)
  have shape: "length keep_selected_lut = 2 * 2 ^ CHUNK_SIZE"
    by (simp add: length_keep_selected_lut CHUNK_SIZE_def)
  have low: "take (2 ^ CHUNK_SIZE) keep_selected_lut = replicate (2 ^ CHUNK_SIZE) 0"
    by (simp add: keep_selected_lut_def CHUNK_SIZE_def map_replicate_const)
  have high: "drop (2 ^ CHUNK_SIZE) keep_selected_lut = map int [0..<2 ^ CHUNK_SIZE]"
    by (simp add: keep_selected_lut_def CHUNK_SIZE_def)
  from same l shape low high show ?thesis by simp
qed

text \<open>The theorem at selector 1 and at selector 0, value 7.\<close>

theorem masked_select_forms_agree_witness:
  "lookup keep_selected_lut (1 * 2 ^ CHUNK_SIZE + 7) = Inr 7
   \<and> lookup lut2 (1 * 2 ^ CHUNK_SIZE + 7) = Inr 7
   \<and> lookup keep_selected_lut (0 * 2 ^ CHUNK_SIZE + 7) = Inr 0"
  using masked_select_forms_agree [of 1 7] masked_select_forms_agree [of 0 7]
  by (simp add: CHUNK_SIZE_def)

section \<open>The codec: binary strings, blocks and the round trip\<close>

subsection \<open>Binary strings and their values\<close>

lemma bits_value_foldl:
  "foldl (\<lambda>acc c. 2 * acc + (if c = CHR ''1'' then 1 else 0)) a s = a * 2 ^ length s + bits_value s"
proof (induction s arbitrary: a)
  case Nil
  show ?case by (simp add: bits_value_def)
next
  case (Cons c s)
  let ?f = "\<lambda>acc c. 2 * acc + (if c = CHR ''1'' then 1 else (0::int))"
  have "foldl ?f (?f a c) s = ?f a c * 2 ^ length s + bits_value s"
    by (rule Cons.IH)
  moreover have "bits_value (c # s) = ?f 0 c * 2 ^ length s + bits_value s"
    unfolding bits_value_def [of "c # s"] using Cons.IH [of "?f 0 c"] by simp
  ultimately show ?case by (simp add: algebra_simps)
qed

lemma bits_value_Nil: "bits_value [] = 0"
  by (simp add: bits_value_def)

lemma bits_value_append: "bits_value (a @ b) = bits_value a * 2 ^ length b + bits_value b"
proof -
  have "bits_value (a @ b)
      = foldl (\<lambda>acc c. 2 * acc + (if c = CHR ''1'' then 1 else 0)) (bits_value a) b"
    by (simp add: bits_value_def)
  then show ?thesis by (simp add: bits_value_foldl)
qed

lemma bits_value_single: "bits_value [c] = (if c = CHR ''1'' then 1 else 0)"
  by (simp add: bits_value_def)

lemma bits_value_Cons:
  "bits_value (c # s) = (if c = CHR ''1'' then 1 else 0) * 2 ^ length s + bits_value s"
  using bits_value_append [of "[c]" s] by (simp add: bits_value_single)

lemma bits_value_replicate_zero: "bits_value (replicate k (CHR ''0'')) = 0"
  by (induction k) (simp_all add: bits_value_Nil bits_value_Cons)

lemma bits_value_replicate_one: "bits_value (replicate k (CHR ''1'')) = 2 ^ k - 1"
  by (induction k) (simp_all add: bits_value_Nil bits_value_Cons)

lemma bits_value_nonneg: "0 \<le> bits_value s"
  by (induction s) (simp_all add: bits_value_Nil bits_value_Cons)

lemma bits_value_less: "bits_value s < 2 ^ length s"
proof (induction s)
  case Nil
  show ?case by (simp add: bits_value_Nil)
next
  case (Cons c s)
  have "bits_value (c # s) \<le> 2 ^ length s + bits_value s"
    by (simp add: bits_value_Cons)
  also have "\<dots> < 2 ^ length s + 2 ^ length s"
    using Cons by simp
  finally show ?case by simp
qed

lemma bits_value_inject:
  assumes "length a = length b" and "list_all is_bit a" and "list_all is_bit b"
      and "bits_value a = bits_value b"
  shows "a = b"
  using assms
proof (induction a b rule: list_induct2)
  case Nil
  show ?case by simp
next
  case (Cons x xs y ys)
  let ?d = "\<lambda>c. if c = CHR ''1'' then 1 else (0::int)"
  have eq: "?d x * 2 ^ length xs + bits_value xs = ?d y * 2 ^ length xs + bits_value ys"
    using Cons.prems(3) Cons.hyps by (simp add: bits_value_Cons)
  have bx: "0 \<le> bits_value xs" "bits_value xs < 2 ^ length xs"
    by (rule bits_value_nonneg, rule bits_value_less)
  have by': "0 \<le> bits_value ys" "bits_value ys < 2 ^ length xs"
    using bits_value_nonneg [of ys] bits_value_less [of ys] Cons.hyps by simp_all
  have d: "?d x = ?d y"
  proof (rule ccontr)
    assume "?d x \<noteq> ?d y"
    then consider "?d x = 0" "?d y = 1" | "?d x = 1" "?d y = 0"
      by (auto split: if_splits)
    then show False using eq bx by' by cases simp_all
  qed
  with eq have v: "bits_value xs = bits_value ys" by simp
  from d Cons.prems(1,2) have "x = y"
    by (auto simp: is_bit_def split: if_splits)
  moreover from v Cons have "xs = ys" by simp
  ultimately show ?case by simp
qed

subsection \<open>\<open>py_bin\<close>\<close>

lemma is_bit_bit_char: "is_bit (bit_char d)"
  by (simp add: is_bit_def bit_char_def)

lemma bits_value_bit_char: "d < 2 \<Longrightarrow> bits_value [bit_char d] = int d"
  by (auto simp: bits_value_single bit_char_def)

lemma py_bin_small: "n < 2 \<Longrightarrow> py_bin n = [bit_char n]"
  by (subst py_bin.simps) simp

lemma py_bin_big: "\<not> n < 2 \<Longrightarrow> py_bin n = py_bin (n div 2) @ [bit_char (n mod 2)]"
  by (subst py_bin.simps) simp

lemma py_bin_bits: "list_all is_bit (py_bin n)"
proof (induction n rule: py_bin.induct)
  case (1 n)
  show ?case
  proof (cases "n < 2")
    case True
    then show ?thesis by (simp add: py_bin_small is_bit_bit_char)
  next
    case False
    with 1 show ?thesis by (simp add: py_bin_big is_bit_bit_char)
  qed
qed

lemma py_bin_value: "bits_value (py_bin n) = int n"
proof (induction n rule: py_bin.induct)
  case (1 n)
  show ?case
  proof (cases "n < 2")
    case True
    then show ?thesis by (simp add: py_bin_small bits_value_bit_char)
  next
    case False
    have "bits_value (py_bin n) = bits_value (py_bin (n div 2)) * 2 + bits_value [bit_char (n mod 2)]"
      using False by (simp add: py_bin_big bits_value_append)
    also have "\<dots> = int (n div 2) * 2 + int (n mod 2)"
      using 1 False by (simp add: bits_value_bit_char)
    also have "\<dots> = int n"
      by (simp add: zdiv_int zmod_int)
    finally show ?thesis .
  qed
qed

lemma length_py_bin_pos: "0 < length (py_bin n)"
  by (cases "n < 2") (simp_all add: py_bin_small py_bin_big)

lemma py_bin_lower: "0 < n \<Longrightarrow> 2 ^ (length (py_bin n) - 1) \<le> n"
proof (induction n rule: py_bin.induct)
  case (1 n)
  show ?case
  proof (cases "n < 2")
    case True
    with 1 show ?thesis by (simp add: py_bin_small)
  next
    case False
    then have pos: "0 < n div 2" by simp
    have len: "length (py_bin n) = Suc (length (py_bin (n div 2)))"
      using False by (simp add: py_bin_big)
    have "2 ^ (length (py_bin (n div 2)) - 1) \<le> n div 2"
      using 1 False pos by simp
    then have "2 * 2 ^ (length (py_bin (n div 2)) - 1) \<le> n" by simp
    moreover have "2 * 2 ^ (length (py_bin (n div 2)) - 1) = (2::nat) ^ length (py_bin (n div 2))"
      using length_py_bin_pos [of "n div 2"] by (cases "length (py_bin (n div 2))") simp_all
    ultimately show ?thesis using len by simp
  qed
qed

lemma py_bin_upper: "n < 2 ^ length (py_bin n)"
proof -
  have "int n < 2 ^ length (py_bin n)"
    using bits_value_less [of "py_bin n"] by (simp add: py_bin_value)
  then show ?thesis
    by (metis of_nat_less_iff of_nat_numeral of_nat_power)
qed

lemma length_py_bin_le:
  assumes "n < 2 ^ w" and "0 < w"
  shows "length (py_bin n) \<le> w"
proof (cases "n = 0")
  case True
  with assms show ?thesis by (simp add: py_bin_small)
next
  case False
  then have "(2::nat) ^ (length (py_bin n) - 1) \<le> n" using py_bin_lower [of n] by simp
  from this assms(1) have "(2::nat) ^ (length (py_bin n) - 1) < 2 ^ w" by (rule le_less_trans)
  then have "length (py_bin n) - 1 < w" by simp
  then show ?thesis by simp
qed

subsection \<open>Blocks\<close>

lemma range_step_eq:
  assumes "0 < c"
  shows "range_step (m * c) c = map (\<lambda>j. j * c) [0..<m]"
proof -
  have "(m * c + c - 1) div c = m"
  proof (rule div_nat_eqI)
    show "c * m \<le> m * c + c - 1" using assms by (simp add: mult.commute)
    show "m * c + c - 1 < c * Suc m" using assms by (simp add: mult.commute)
  qed
  then show ?thesis unfolding range_step_def by (simp only:)
qed

lemma length_blocks_of: "length (blocks_of s) = (length s + CHUNK_SIZE - 1) div CHUNK_SIZE"
  by (simp add: blocks_of_def range_step_def)

lemma blocks_of_Nil: "blocks_of [] = []"
  by (simp add: blocks_of_def range_step_def CHUNK_SIZE_def)

lemma blocks_count_rec:
  assumes "0 < c" and "0 < n"
  shows "(n + c - 1) div c = Suc ((n - c + c - 1) div c)"
proof (cases "c \<le> n")
  case True
  define x where "x = n - 1"
  have a: "n + c - 1 = x + c" using assms by (simp add: x_def)
  have b: "n - c + c - 1 = x" using True by (simp add: x_def)
  have "(x + c) div c = Suc (x div c)" using assms(1) div_add_self2 [of c x] by simp
  with a b show ?thesis by (simp only:)
next
  case False
  have "(n + c - 1) div c = 1"
  proof (rule div_nat_eqI)
    show "c * 1 \<le> n + c - 1" using assms by simp
    show "n + c - 1 < c * Suc 1" using False assms by simp
  qed
  moreover have "(n - c + c - 1) div c = 0" using False assms by simp
  ultimately show ?thesis by (simp only: One_nat_def)
qed

lemma blocks_of_rec:
  assumes "s \<noteq> []"
  shows "blocks_of s = take CHUNK_SIZE s # blocks_of (drop CHUNK_SIZE s)"
proof -
  let ?c = CHUNK_SIZE
  let ?m = "(length (drop ?c s) + ?c - 1) div ?c"
  have c: "0 < ?c" by (simp add: CHUNK_SIZE_def)
  from assms have "0 < length s" by simp
  from blocks_count_rec [OF c this]
  have cnt: "(length s + ?c - 1) div ?c = Suc ?m" by simp
  have u: "[0..<Suc ?m] = 0 # map Suc [0..<?m]"
    by (simp only: upt_conv_Cons [OF zero_less_Suc] map_Suc_upt)
  have "blocks_of s = map (\<lambda>j. take ?c (drop (j * ?c) s)) [0..<Suc ?m]"
    unfolding blocks_of_def range_step_def cnt by (simp only: map_map comp_def)
  also have "\<dots> = take ?c s # map (\<lambda>j. take ?c (drop (Suc j * ?c) s)) [0..<?m]"
    unfolding u by (simp add: comp_def)
  also have "map (\<lambda>j. take ?c (drop (Suc j * ?c) s)) [0..<?m]
           = map (\<lambda>j. take ?c (drop (j * ?c) (drop ?c s))) [0..<?m]"
    by (simp add: add.commute)
  also have "\<dots> = blocks_of (drop ?c s)"
    unfolding blocks_of_def range_step_def by (simp only: map_map comp_def)
  finally show ?thesis .
qed

subsection \<open>\<open>mapM\<close>\<close>

lemma mapM_all_Inr:
  assumes "list_all (\<lambda>x. f x = Inr (g x)) xs"
  shows "mapM f xs = Inr (map g xs)"
  using assms by (induction xs) simp_all

lemma int_base2_bits:
  assumes "s \<noteq> []" and "list_all is_bit s"
  shows "int_base2 s = Inr (bits_value s)"
  using assms by (simp add: int_base2_def)

subsection \<open>\<open>decode\<close> as a big-endian numeral\<close>

lemma wrap_int64_fits: "fits_int64 x \<Longrightarrow> wrap_int64 x = x"
  by (simp add: fits_int64_def wrap_int64_def)

lemma wrap_int64_add: "wrap_int64 (wrap_int64 a + wrap_int64 b) = wrap_int64 (a + b)"
proof -
  have "(wrap_int64 a + wrap_int64 b + 2 ^ 63) mod 2 ^ 64
      = (((a + 2 ^ 63) mod 2 ^ 64 + (b + 2 ^ 63) mod 2 ^ 64) - 2 ^ 63) mod 2 ^ 64"
    by (simp add: wrap_int64_def algebra_simps)
  also have "\<dots> = (((a + 2 ^ 63) + (b + 2 ^ 63)) - 2 ^ 63) mod 2 ^ 64"
    by (metis mod_add_eq mod_diff_left_eq)
  also have "\<dots> = (a + b + 2 ^ 63) mod 2 ^ 64"
    by (simp add: algebra_simps)
  finally show ?thesis
    by (simp add: wrap_int64_def [of "wrap_int64 a + wrap_int64 b"] wrap_int64_def [of "a + b"])
qed

lemma fits_int64_power: "fits_int64 (2 ^ (CHUNK_SIZE * i)) = (i < 16)"
proof -
  have "((2::int) ^ (CHUNK_SIZE * i) < 2 ^ 63) = (CHUNK_SIZE * i < 63)"
    by (rule power_strict_increasing_iff) simp
  moreover have "- (2 ^ 63) \<le> (2::int) ^ (CHUNK_SIZE * i)"
    by (rule order_trans [of _ 0]) simp_all
  ultimately show ?thesis
    by (auto simp: fits_int64_def CHUNK_SIZE_def)
qed

lemma fold_add_sum:
  "fold (\<lambda>i result. result + g i) [0..<n] (a::int) = a + (\<Sum>i<n. g i)"
  by (induction n) simp_all

lemma chunks_value_sum:
  "chunks_value e = (\<Sum>i<length e. 2 ^ (CHUNK_SIZE * i) * e ! ((length e - i) - 1))"
proof (induction e)
  case Nil
  show ?case by simp
next
  case (Cons c cs)
  let ?m = "length cs"
  have "(\<Sum>i<length (c # cs). 2 ^ (CHUNK_SIZE * i) * (c # cs) ! ((length (c # cs) - i) - 1))
      = (\<Sum>i<Suc ?m. 2 ^ (CHUNK_SIZE * i) * (c # cs) ! (?m - i))"
    by simp
  also have "\<dots> = (\<Sum>i<?m. 2 ^ (CHUNK_SIZE * i) * (c # cs) ! (?m - i)) + 2 ^ (CHUNK_SIZE * ?m) * c"
    by simp
  also have "(\<Sum>i<?m. 2 ^ (CHUNK_SIZE * i) * (c # cs) ! (?m - i))
           = (\<Sum>i<?m. 2 ^ (CHUNK_SIZE * i) * cs ! ((?m - i) - 1))"
  proof (rule sum.cong)
    fix i assume "i \<in> {..<?m}"
    then have "?m - i = Suc (?m - i - 1)" by simp
    then have "(c # cs) ! (?m - i) = cs ! (?m - i - 1)"
      by (metis nth_Cons_Suc)
    then show "2 ^ (CHUNK_SIZE * i) * (c # cs) ! (?m - i) = 2 ^ (CHUNK_SIZE * i) * cs ! ((?m - i) - 1)"
      by simp
  qed simp
  finally show ?case using Cons.IH by simp
qed

text \<open>The loop of \<open>decode\<close> after \<open>k\<close> rounds, when every chunk is at least 0 and the number
  they write is below \<open>2 ^ 63\<close>: nothing has wrapped.\<close>

lemma decode_rounds_exact:
  assumes nn: "list_all (\<lambda>c. 0 \<le> c) e" and small: "chunks_value e < 2 ^ 63"
  shows "k \<le> length e \<Longrightarrow>
         fold (\<lambda>i result.
                 (let power = 2 ^ (CHUNK_SIZE * i);
                      chunk = e ! ((length e - i) - 1)
                  in if fits_int64 power then wrap_int64 (result + wrap_int64 (power * chunk))
                     else result + power * chunk))
           [0..<k] 0
         = (\<Sum>i<k. 2 ^ (CHUNK_SIZE * i) * e ! ((length e - i) - 1))"
proof (induction k)
  case 0
  show ?case by simp
next
  case (Suc k)
  let ?g = "\<lambda>i. 2 ^ (CHUNK_SIZE * i) * e ! (length e - Suc i)"
  have g0: "0 \<le> ?g i" if "i < length e" for i
  proof -
    from that have "(length e - i) - 1 < length e" by simp
    with nn have "0 \<le> e ! ((length e - i) - 1)" by (simp add: list_all_length)
    then show ?thesis by simp
  qed
  from Suc.prems have k: "k < length e" by simp
  have p0: "0 \<le> (\<Sum>i<k. ?g i)"
    using k by (intro sum_nonneg g0) simp
  have "(\<Sum>i<Suc k. ?g i) \<le> (\<Sum>i<length e. ?g i)"
    using Suc.prems by (intro sum_mono2) (use g0 in auto)
  with small have up: "(\<Sum>i<k. ?g i) + ?g k < 2 ^ 63"
    by (simp add: chunks_value_sum)
  from g0 [OF k] p0 up have f1: "fits_int64 (?g k)" and f2: "fits_int64 ((\<Sum>i<k. ?g i) + ?g k)"
    by (simp_all add: fits_int64_def)
  from Suc.IH k show ?case
    by (simp add: Let_def wrap_int64_fits [OF f1] wrap_int64_fits [OF f2])
qed

lemma decode_exact:
  assumes "list_all (\<lambda>c. 0 \<le> c) e" and "chunks_value e < 2 ^ 63"
  shows "decode e = chunks_value e"
  using decode_rounds_exact [OF assms, of "length e"]
  by (simp add: decode_def chunks_value_sum)

text \<open>The loop of \<open>decode\<close> on at most sixteen chunks, whatever they are: all of it is
  \<open>np.int64\<close> arithmetic, and the result is what the number wraps to.\<close>

lemma decode_rounds_wrap:
  assumes "length e \<le> 16"
  shows "k \<le> length e \<Longrightarrow>
         fold (\<lambda>i result.
                 (let power = 2 ^ (CHUNK_SIZE * i);
                      chunk = e ! ((length e - i) - 1)
                  in if fits_int64 power then wrap_int64 (result + wrap_int64 (power * chunk))
                     else result + power * chunk))
           [0..<k] 0
         = wrap_int64 (\<Sum>i<k. 2 ^ (CHUNK_SIZE * i) * e ! ((length e - i) - 1))"
proof (induction k)
  case 0
  show ?case by (simp add: wrap_int64_def)
next
  case (Suc k)
  from Suc.prems assms have "k < 16" by simp
  then have f: "fits_int64 (2 ^ (CHUNK_SIZE * k))" by (simp add: fits_int64_power)
  have w: "wrap_int64 (wrap_int64 a + wrap_int64 b) = wrap_int64 (a + b)" for a b
    by (rule wrap_int64_add)
  have ww: "wrap_int64 (wrap_int64 a) = wrap_int64 a" for a
    using wrap_int64_add [of a 0] by (simp add: wrap_int64_def)
  from Suc.IH Suc.prems f show ?case
    by (simp add: Let_def) (metis w ww)
qed

lemma decode_wraps:
  assumes "length e \<le> 16"
  shows "decode e = wrap_int64 (chunks_value e)"
  using decode_rounds_wrap [OF assms, of "length e"]
  by (simp add: decode_def chunks_value_sum)

subsection \<open>The blocks of a binary string\<close>

lemma blocks_of_bits:
  assumes "list_all is_bit s"
  shows "list_all (\<lambda>b. b \<noteq> [] \<and> list_all is_bit b) (blocks_of s)"
  using assms
proof (induction "length s" arbitrary: s rule: less_induct)
  case less
  show ?case
  proof (cases "s = []")
    case True
    then show ?thesis by (simp add: blocks_of_Nil)
  next
    case False
    have c: "0 < CHUNK_SIZE" by (simp add: CHUNK_SIZE_def)
    from False c have shorter: "length (drop CHUNK_SIZE s) < length s" by simp
    from less.prems have t: "list_all is_bit (take CHUNK_SIZE s)"
      and d: "list_all is_bit (drop CHUNK_SIZE s)"
      by (auto simp: list_all_iff dest: in_set_takeD in_set_dropD)
    from False c have "take CHUNK_SIZE s \<noteq> []" by simp
    with t less.hyps [OF shorter d] show ?thesis
      by (simp add: blocks_of_rec [OF False])
  qed
qed

lemma encode_blocks:
  assumes "list_all is_bit s"
  shows "mapM int_base2 (blocks_of s) = Inr (map bits_value (blocks_of s))"
proof (rule mapM_all_Inr)
  from blocks_of_bits [OF assms]
  show "list_all (\<lambda>x. int_base2 x = Inr (bits_value x)) (blocks_of s)"
    by (simp add: list_all_iff int_base2_bits)
qed

lemma blocks_of_multiple:
  assumes "length s = m * CHUNK_SIZE"
  shows "length (blocks_of s) = m
       \<and> list_all (\<lambda>b. length b = CHUNK_SIZE) (blocks_of s)
       \<and> chunks_value (map bits_value (blocks_of s)) = bits_value s"
  using assms
proof (induction m arbitrary: s)
  case 0
  then show ?case by (simp add: blocks_of_Nil bits_value_Nil)
next
  case (Suc m)
  have c: "0 < CHUNK_SIZE" by (simp add: CHUNK_SIZE_def)
  from Suc.prems c have ne: "s \<noteq> []" by auto
  from Suc.prems have ld: "length (drop CHUNK_SIZE s) = m * CHUNK_SIZE" by simp
  from Suc.prems have lt: "length (take CHUNK_SIZE s) = CHUNK_SIZE" by simp
  note ih = Suc.IH [OF ld]
  have "bits_value s = bits_value (take CHUNK_SIZE s @ drop CHUNK_SIZE s)" by simp
  also have "\<dots> = bits_value (take CHUNK_SIZE s) * 2 ^ (m * CHUNK_SIZE) + bits_value (drop CHUNK_SIZE s)"
    by (simp only: bits_value_append ld)
  finally have v: "bits_value s
      = bits_value (take CHUNK_SIZE s) * 2 ^ (m * CHUNK_SIZE) + bits_value (drop CHUNK_SIZE s)" .
  from ih lt v show ?case
    by (simp add: blocks_of_rec [OF ne] mult.commute)
qed

subsection \<open>\<open>binary_repr\<close>\<close>

lemma list_all_replicate: "P c \<Longrightarrow> list_all P (replicate k c)"
  by (simp add: list_all_iff)

lemma binary_repr_bits: "list_all is_bit (binary_repr num width)"
  by (simp add: binary_repr_def Let_def py_bin_bits list_all_replicate is_bit_def)

lemma binary_repr_nonneg:
  assumes "0 \<le> n" and "n < 2 ^ w" and "0 < w"
  shows "length (binary_repr n w) = w \<and> bits_value (binary_repr n w) = n"
proof (cases "n = 0")
  case True
  with assms(3) show ?thesis
    by (simp add: binary_repr_def bits_value_replicate_zero)
next
  case False
  with assms(1) have pos: "0 < n" by simp
  from assms(2) pos have "nat n < 2 ^ w"
    by (metis nat_less_iff of_nat_numeral of_nat_power assms(1))
  then have len: "length (py_bin (nat n)) \<le> w"
    using assms(3) by (rule length_py_bin_le)
  then have m: "max (length (py_bin (nat n))) w = w" by simp
  have r: "binary_repr n w = replicate (w - length (py_bin (nat n))) (CHR ''0'') @ py_bin (nat n)"
    using pos by (simp add: binary_repr_def Let_def m)
  have "bits_value (binary_repr n w) = int (nat n)"
    unfolding r by (simp add: bits_value_append bits_value_replicate_zero py_bin_value)
  with pos r len show ?thesis by simp
qed

lemma binary_repr_zero_width: "binary_repr 0 0 = ''0''"
  by (simp add: binary_repr_def)

subsection \<open>The round trip\<close>

lemma chunk_bounds:
  assumes "list_all (\<lambda>b. length b = CHUNK_SIZE) bs"
  shows "list_all (\<lambda>c. 0 \<le> c \<and> c < 2 ^ CHUNK_SIZE) (map bits_value bs)"
proof -
  have "0 \<le> bits_value b \<and> bits_value b < 2 ^ CHUNK_SIZE" if "length b = CHUNK_SIZE" for b
    using bits_value_nonneg [of b] bits_value_less [of b] that by simp
  with assms show ?thesis by (simp add: list_all_iff)
qed

lemma encode_in_range:
  assumes "width = m * CHUNK_SIZE" and "0 < m" and "0 \<le> n" and "n < 2 ^ width"
  shows "encode n width = Inr (map bits_value (blocks_of (binary_repr n width)))
       \<and> length (blocks_of (binary_repr n width)) = m
       \<and> list_all (\<lambda>c. 0 \<le> c \<and> c < 2 ^ CHUNK_SIZE) (map bits_value (blocks_of (binary_repr n width)))
       \<and> chunks_value (map bits_value (blocks_of (binary_repr n width))) = n"
proof -
  have w: "0 < width" using assms(1,2) by (simp add: CHUNK_SIZE_def)
  from binary_repr_nonneg [OF assms(3,4) w]
  have len: "length (binary_repr n width) = m * CHUNK_SIZE"
    and val: "bits_value (binary_repr n width) = n"
    using assms(1) by simp_all
  from blocks_of_multiple [OF len] val chunk_bounds encode_blocks [OF binary_repr_bits]
  show ?thesis by (simp add: encode_def)
qed

lemma encode_zero_width: "encode 0 0 = Inr [0]"
proof -
  have "blocks_of ''0'' = [''0'']"
    by (simp add: blocks_of_def range_step_def CHUNK_SIZE_def)
  then show ?thesis
    by (simp add: encode_def binary_repr_zero_width int_base2_def is_bit_def bits_value_def)
qed

lemma binary_repr_all_ones:
  assumes "0 < w"
  shows "binary_repr (2 ^ w - 1) w = replicate w (CHR ''1'')"
proof -
  have "(0::int) \<le> 2 ^ w - 1" and "(2::int) ^ w - 1 < 2 ^ w" by simp_all
  from binary_repr_nonneg [OF this assms]
  have "length (binary_repr (2 ^ w - 1) w) = length (replicate w (CHR ''1''))"
    and "bits_value (binary_repr (2 ^ w - 1) w) = bits_value (replicate w (CHR ''1''))"
    by (simp_all add: bits_value_replicate_one)
  moreover have "list_all is_bit (replicate w (CHR ''1''))"
    by (simp add: list_all_replicate is_bit_def)
  ultimately show ?thesis
    using binary_repr_bits by (intro bits_value_inject)
qed

lemma wrap_int64_unsigned:
  assumes "0 \<le> n" and "n < 2 ^ 64"
  shows "wrap_int64 n = (if n < 2 ^ 63 then n else n - 2 ^ 64)"
proof (cases "n < 2 ^ 63")
  case True
  with assms show ?thesis by (simp add: wrap_int64_fits fits_int64_def)
next
  case False
  with assms have "0 \<le> n - 2 ^ 63" and "n - 2 ^ 63 < 2 ^ 64" by simp_all
  then have "(n - 2 ^ 63) mod 2 ^ 64 = n - 2 ^ 63" by (rule mod_pos_pos_trivial)
  moreover have "(n + 2 ^ 63) mod 2 ^ 64 = (n - 2 ^ 63) mod 2 ^ 64"
  proof -
    have "n + 2 ^ 63 = (n - 2 ^ 63) + 1 * 2 ^ 64" by simp
    then show ?thesis by (simp only: mod_mult_self1)
  qed
  ultimately show ?thesis using False by (simp add: wrap_int64_def)
qed

text \<open>
  Claim C6, as the code has it. For every width divisible by \<open>CHUNK_SIZE\<close> and every \<open>n\<close>
  with \<open>0 \<le> n < 2 ^ width\<close>, \<open>encode\<close> raises nothing and every chunk is in
  \<open>[0, 2 ^ CHUNK_SIZE)\<close>. There are \<open>width div CHUNK_SIZE\<close> chunks for a positive width; for
  width 0 there is one chunk, since \<open>binary_repr\<close> writes zero with one digit at least.
  \<open>decode\<close> of the chunks is \<open>n\<close> when \<open>n < 2 ^ 63\<close>. It is not for a larger \<open>n\<close> of up to
  64 bits: \<open>decode\<close> computes in \<open>np.int64\<close> and returns \<open>n - 2 ^ 64\<close>, the number that
  \<open>n\<close> wraps to.
\<close>

theorem decode_encode_roundtrip:
  assumes "width mod CHUNK_SIZE = 0" and "0 \<le> n" and "n < 2 ^ width"
  shows "\<exists>chunks. encode n width = Inr chunks
           \<and> (n < 2 ^ 63 \<longrightarrow> decode chunks = n)
           \<and> (width \<le> 64 \<longrightarrow> decode chunks = (if n < 2 ^ 63 then n else n - 2 ^ 64))
           \<and> list_all (\<lambda>c. 0 \<le> c \<and> c < 2 ^ CHUNK_SIZE) chunks
           \<and> length chunks = (if width = 0 then 1 else width div CHUNK_SIZE)"
proof (cases "width = 0")
  case True
  with assms have "n = 0" by simp
  moreover have "decode [0] = 0"
    by (simp add: decode_def fits_int64_def wrap_int64_def)
  ultimately show ?thesis using True
    by (simp add: encode_zero_width)
next
  case False
  from assms(1) have "CHUNK_SIZE dvd width" by (simp add: dvd_eq_mod_eq_0)
  then obtain m where m: "width = m * CHUNK_SIZE"
    by (auto simp: dvd_def mult.commute)
  with False have mpos: "0 < m" by (cases m) simp_all
  let ?chunks = "map bits_value (blocks_of (binary_repr n width))"
  from encode_in_range [OF m mpos assms(2,3)]
  have enc: "encode n width = Inr ?chunks"
    and len: "length ?chunks = m"
    and rng: "list_all (\<lambda>c. 0 \<le> c \<and> c < 2 ^ CHUNK_SIZE) ?chunks"
    and val: "chunks_value ?chunks = n"
    by simp_all
  from rng have nn: "list_all (\<lambda>c. 0 \<le> c) ?chunks"
    by (simp add: list_all_iff)
  have exact: "decode ?chunks = n" if "n < 2 ^ 63"
    using decode_exact [OF nn] val that by simp
  have wraps: "decode ?chunks = (if n < 2 ^ 63 then n else n - 2 ^ 64)" if w: "width \<le> 64"
  proof -
    from w m have "m \<le> 16" by (simp add: CHUNK_SIZE_def)
    with len have "length ?chunks \<le> 16" by simp
    then have "decode ?chunks = wrap_int64 n"
      using decode_wraps [of ?chunks] val by simp
    moreover have "n < 2 ^ 64"
    proof -
      from w have "(2::int) ^ width \<le> 2 ^ 64" by (intro power_increasing) simp_all
      with assms(3) show ?thesis by simp
    qed
    ultimately show ?thesis using wrap_int64_unsigned [OF assms(2)] by simp
  qed
  from m mpos have "width div CHUNK_SIZE = m" by (simp add: CHUNK_SIZE_def)
  with enc len rng exact wraps False show ?thesis
    by (intro exI [of _ ?chunks]) simp
qed

text \<open>The theorem at width 32 and \<open>n = 3000000000\<close>.\<close>

theorem decode_encode_roundtrip_witness:
  "\<exists>chunks. encode 3000000000 32 = Inr chunks \<and> decode chunks = 3000000000
      \<and> list_all (\<lambda>c. 0 \<le> c \<and> c < 2 ^ CHUNK_SIZE) chunks \<and> length chunks = 8"
  using decode_encode_roundtrip [of 32 3000000000] by (simp add: CHUNK_SIZE_def)

text \<open>
  At width 64 and \<open>n = 2 ^ 64 - 1\<close>, \<open>encode\<close> returns sixteen chunks of 15 and \<open>decode\<close>
  returns -1 for them. At width 0 (divisible by \<open>CHUNK_SIZE\<close>) and \<open>n = 0\<close> (below \<open>2 ^ 0\<close>),
  \<open>encode\<close> returns one chunk, not \<open>0 div CHUNK_SIZE = 0\<close> chunks.
\<close>

theorem decode_encode_counterexample:
  "64 mod CHUNK_SIZE = 0 \<and> (0::int) \<le> 18446744073709551615
   \<and> (18446744073709551615::int) < 2 ^ 64
   \<and> encode 18446744073709551615 64 = Inr (replicate 16 15)
   \<and> decode (replicate 16 15) = - 1
   \<and> 0 mod CHUNK_SIZE = 0 \<and> (0::int) < 2 ^ 0 \<and> encode 0 0 = Inr [0]
   \<and> length [0::int] \<noteq> 0 div CHUNK_SIZE"
proof -
  have "binary_repr 18446744073709551615 64 = replicate 64 (CHR ''1'')"
    using binary_repr_all_ones [of 64] by simp
  moreover have "mapM int_base2 (blocks_of (replicate 64 (CHR ''1''))) = Inr (replicate 16 15)"
    by code_simp
  ultimately have e: "encode 18446744073709551615 64 = Inr (replicate 16 15)"
    by (simp add: encode_def)
  have d: "decode (replicate 16 15) = - 1"
    by code_simp
  from e d show ?thesis
    by (simp add: encode_zero_width CHUNK_SIZE_def)
qed

section \<open>Properties of the circuits\<close>

subsection \<open>Shapes and constants\<close>

lemmas constants =
  NUMBER_OF_ENTRIES_def CHUNK_SIZE_def KEY_SIZE_def VALUE_SIZE_def NUMBER_OF_KEY_CHUNKS_def
  NUMBER_OF_VALUE_CHUNKS_def STATE_SHAPE_def FLAG_def KEY_def VALUE_def

lemma STATE_SHAPE_fst: "fst STATE_SHAPE = NUMBER_OF_ENTRIES"
  by (simp add: STATE_SHAPE_def)

lemma STATE_SHAPE_snd: "snd STATE_SHAPE = 1 + NUMBER_OF_KEY_CHUNKS + NUMBER_OF_VALUE_CHUNKS"
  by (simp add: STATE_SHAPE_def)

lemma has_shape_length: "has_shape STATE_SHAPE state \<Longrightarrow> length state = NUMBER_OF_ENTRIES"
  by (simp add: has_shape_def STATE_SHAPE_fst)

lemma has_shape_row:
  assumes "has_shape STATE_SHAPE state" and "row \<in> set state"
  shows "length row = 1 + NUMBER_OF_KEY_CHUNKS + NUMBER_OF_VALUE_CHUNKS"
  using assms by (simp add: has_shape_def STATE_SHAPE_snd list_all_iff)

lemma has_shape_nth:
  assumes "has_shape STATE_SHAPE state" and "i < NUMBER_OF_ENTRIES"
  shows "length (state ! i) = 1 + NUMBER_OF_KEY_CHUNKS + NUMBER_OF_VALUE_CHUNKS"
  using assms has_shape_row [of state "state ! i"] by (simp add: has_shape_length)

subsection \<open>Table lookups over arrays\<close>

lemma lookup_all_rows:
  assumes "list_all (list_all (\<lambda>x. lookup table x = Inr (g x))) indices"
  shows "lookup_all table indices = Inr (map (map g) indices)"
  unfolding lookup_all_def
proof (rule mapM_all_Inr)
  show "list_all (\<lambda>row. mapM (lookup table) row = Inr (map g row)) indices"
    using assms by (simp add: list_all_iff mapM_all_Inr)
qed

lemma mapM_map: "mapM f (map h xs) = mapM (\<lambda>x. f (h x)) xs"
  by (induction xs) (simp_all split: sum.splits)

lemma lookup_all_broadcast:
  assumes "list_all (\<lambda>s. s = 0 \<or> s = 1) selection"
      and "list_all (\<lambda>v. 0 \<le> v \<and> v < 2 ^ CHUNK_SIZE) chunks"
  shows "lookup_all keep_selected_lut (map (\<lambda>s. map (\<lambda>v. s * 2 ^ CHUNK_SIZE + v) chunks) selection)
       = Inr (map (\<lambda>s. map (\<lambda>v. s * v) chunks) selection)"
proof -
  have "mapM (lookup keep_selected_lut) (map (\<lambda>v. s * 2 ^ CHUNK_SIZE + v) chunks)
      = Inr (map (\<lambda>v. s * v) chunks)" if "s = 0 \<or> s = 1" for s
  proof -
    have "mapM (\<lambda>v. lookup keep_selected_lut (s * 2 ^ CHUNK_SIZE + v)) chunks
        = Inr (map (\<lambda>v. s * v) chunks)"
      using assms(2) that
      by (intro mapM_all_Inr) (simp add: list_all_iff two_pow_CHUNK_SIZE lookup_keep_selected)
    then show ?thesis by (simp add: mapM_map)
  qed
  then have "list_all (\<lambda>s. mapM (lookup keep_selected_lut) (map (\<lambda>v. s * 2 ^ CHUNK_SIZE + v) chunks)
      = Inr (map (\<lambda>v. s * v) chunks)) selection"
    using assms(1) by (simp add: list_all_iff)
  then have "mapM (\<lambda>s. mapM (lookup keep_selected_lut) (map (\<lambda>v. s * 2 ^ CHUNK_SIZE + v) chunks)) selection
      = Inr (map (\<lambda>s. map (\<lambda>v. s * v) chunks) selection)"
    by (rule mapM_all_Inr)
  then show ?thesis by (simp add: lookup_all_def mapM_map)
qed

lemma lookup_all_rowwise:
  assumes "list_all (\<lambda>s. s = 0 \<or> s = 1) selection"
      and "list_all (list_all (\<lambda>v. 0 \<le> v \<and> v < 2 ^ CHUNK_SIZE)) rows"
  shows "lookup_all keep_selected_lut
           (map2 (\<lambda>s vs. map (\<lambda>v. s * 2 ^ CHUNK_SIZE + v) vs) selection rows)
       = Inr (map2 (\<lambda>s vs. map (\<lambda>v. s * v) vs) selection rows)"
  using assms
proof (induction selection arbitrary: rows)
  case Nil
  show ?case by (simp add: lookup_all_def)
next
  case (Cons s selection)
  show ?case
  proof (cases rows)
    case Nil
    then show ?thesis by (simp add: lookup_all_def)
  next
    case (Cons vs rest)
    from Cons.prems(1) have s: "s = 0 \<or> s = 1" by simp
    from Cons.prems(2) Cons have vs: "list_all (\<lambda>v. 0 \<le> v \<and> v < 2 ^ CHUNK_SIZE) vs"
      and rest: "list_all (list_all (\<lambda>v. 0 \<le> v \<and> v < 2 ^ CHUNK_SIZE)) rest" by simp_all
    from lookup_all_broadcast [of "[s]" vs] s vs
    have row: "mapM (lookup keep_selected_lut) (map (\<lambda>v. s * 2 ^ CHUNK_SIZE + v) vs)
             = Inr (map (\<lambda>v. s * v) vs)"
      by (simp add: lookup_all_def split: sum.splits)
    from Cons.IH [OF _ rest] Cons.prems(1)
    have "lookup_all keep_selected_lut
            (map2 (\<lambda>s vs. map (\<lambda>v. s * 2 ^ CHUNK_SIZE + v) vs) selection rest)
        = Inr (map2 (\<lambda>s vs. map (\<lambda>v. s * v) vs) selection rest)" by simp
    with row Cons show ?thesis by (simp add: lookup_all_def)
  qed
qed

subsection \<open>The selection loop of \<open>_insert_impl\<close>\<close>

lemma selection_loop_found:
  assumes "list_all (\<lambda>i. 0 \<le> flags ! i \<and> i < length selection \<and> selection ! i = 0) indices"
  shows "selection_loop flags indices (selection, 1) = (selection, 1)"
  using assms
proof (induction indices)
  case Nil
  show ?case by simp
next
  case (Cons i indices)
  then have "1 * 2 + flags ! i \<noteq> 0" and "selection[i := 0] = selection"
    by (simp_all add: list_update_same_conv)
  with Cons show ?case by (simp add: Let_def)
qed

lemma selection_loop_first_free:
  assumes "list_all (\<lambda>i. (flags ! i = 0 \<or> flags ! i = 1) \<and> i < length selection \<and> selection ! i = 0) indices"
      and "distinct indices"
  shows "selection_loop flags indices (selection, 0)
       = (case find (\<lambda>i. flags ! i = 0) indices of
            None \<Rightarrow> (selection, 0)
          | Some i \<Rightarrow> (selection[i := 1], 1))"
  using assms
proof (induction indices)
  case Nil
  show ?case by simp
next
  case (Cons i indices)
  show ?case
  proof (cases "flags ! i = 0")
    case True
    have "list_all (\<lambda>j. 0 \<le> flags ! j \<and> j < length (selection[i := 1]) \<and> selection[i := 1] ! j = 0) indices"
      using Cons.prems by (auto simp: list_all_iff nth_list_update)
    then have "selection_loop flags indices (selection[i := 1], 1) = (selection[i := 1], 1)"
      by (rule selection_loop_found)
    with True show ?thesis by (simp add: Let_def)
  next
    case False
    with Cons.prems have one: "flags ! i = 1" and same: "selection[i := 0] = selection"
      by (simp_all add: list_update_same_conv)
    from Cons.prems have "selection_loop flags indices (selection, 0)
       = (case find (\<lambda>i. flags ! i = 0) indices of
            None \<Rightarrow> (selection, 0)
          | Some i \<Rightarrow> (selection[i := 1], 1))"
      by (intro Cons.IH) simp_all
    with one same show ?thesis by (simp add: Let_def)
  qed
qed

text \<open>The selection of a whole run: a one at the first free row, zeros elsewhere.\<close>

lemma selection_of_flags:
  assumes "length flags = n" and "list_all (\<lambda>f. f = 0 \<or> f = 1) flags"
  shows "selection_loop flags [0..<n] (replicate n 0, 0)
       = (case find (\<lambda>i. flags ! i = 0) [0..<n] of
            None \<Rightarrow> (replicate n 0, 0)
          | Some i \<Rightarrow> ((replicate n 0)[i := 1], 1))"
proof (rule selection_loop_first_free)
  show "list_all (\<lambda>i. (flags ! i = 0 \<or> flags ! i = 1) \<and> i < length (replicate n (0::int))
          \<and> replicate n (0::int) ! i = 0) [0..<n]"
    using assms by (simp add: list_all_iff)
  show "distinct [0..<n]" by simp
qed

lemma find_upt_None:
  "find P [0..<n] = None \<longleftrightarrow> (\<forall>i<n. \<not> P i)"
  by (auto simp: find_None_iff)

lemma find_upt_Some:
  "find P [0..<n] = Some i \<longleftrightarrow> (i < n \<and> P i \<and> (\<forall>j<i. \<not> P j))"
  by (auto simp: find_Some_iff)

subsection \<open>The update of \<open>_insert_impl\<close>\<close>

lemma map2_replicate_left:
  "length xs = n \<Longrightarrow> map2 f (replicate n a) xs = map (f a) xs"
  by (induction xs arbitrary: n) auto

lemma map2_same: "map2 f (map g xs) (map h xs) = map (\<lambda>x. f (g x) (h x)) xs"
  by (induction xs) simp_all

lemma add_zero_row: "length row = m \<Longrightarrow> map2 (+) row (replicate m (0::int)) = row"
  by (induction row arbitrary: m) auto

text \<open>The rows of \<open>state_update\<close> after the three assignments, one per entry of the selection.\<close>

lemma state_update_rows:
  assumes "length selection = NUMBER_OF_ENTRIES"
      and "length key_update = NUMBER_OF_KEY_CHUNKS"
      and "length value_update = NUMBER_OF_VALUE_CHUNKS"
  shows "set_slice VALUE
           (set_slice KEY (set_column FLAG (zeros STATE_SHAPE) selection)
              (map (\<lambda>s. map (\<lambda>k. s * k) key_update) selection))
           (map (\<lambda>s. map (\<lambda>v. s * v) value_update) selection)
       = map (\<lambda>s. s # map (\<lambda>k. s * k) key_update @ map (\<lambda>v. s * v) value_update) selection"
proof -
  let ?w = "1 + NUMBER_OF_KEY_CHUNKS + NUMBER_OF_VALUE_CHUNKS"
  have flag: "set_column FLAG (zeros STATE_SHAPE) selection
            = map (\<lambda>s. s # replicate (NUMBER_OF_KEY_CHUNKS + NUMBER_OF_VALUE_CHUNKS) 0) selection"
    using assms(1)
    by (simp add: set_column_def zeros_def STATE_SHAPE_def FLAG_def map2_replicate_left)
  have keys: "set_slice KEY (map (\<lambda>s. s # replicate (NUMBER_OF_KEY_CHUNKS + NUMBER_OF_VALUE_CHUNKS) 0) selection)
                (map (\<lambda>s. map (\<lambda>k. s * k) key_update) selection)
            = map (\<lambda>s. s # map (\<lambda>k. s * k) key_update @ replicate NUMBER_OF_VALUE_CHUNKS 0) selection"
    by (simp add: set_slice_def KEY_def map2_same)
  have vals: "set_slice VALUE
                (map (\<lambda>s. s # map (\<lambda>k. s * k) key_update @ replicate NUMBER_OF_VALUE_CHUNKS 0) selection)
                (map (\<lambda>s. map (\<lambda>v. s * v) value_update) selection)
            = map (\<lambda>s. s # map (\<lambda>k. s * k) key_update @ map (\<lambda>v. s * v) value_update) selection"
    using assms(2) by (simp add: set_slice_def VALUE_def map2_same)
  show ?thesis by (simp only: flag keys vals)
qed

lemma add_rows_none:
  assumes "list_all (\<lambda>row. length row = w) state"
  shows "map2 (map2 (+)) state (replicate (length state) (replicate w (0::int))) = state"
  using assms by (induction state) (simp_all add: add_zero_row)

lemma add_rows_one:
  assumes "list_all (\<lambda>row. length row = w) state" and "i < length state"
  shows "map2 (map2 (+)) state ((replicate (length state) (replicate w (0::int)))[i := r])
       = state[i := map2 (+) (state ! i) r]"
  using assms
proof (induction state arbitrary: i)
  case Nil
  then show ?case by simp
next
  case (Cons row state)
  show ?case
  proof (cases i)
    case 0
    with Cons.prems add_rows_none [of w state] show ?thesis by simp
  next
    case (Suc j)
    with Cons.prems Cons.IH [of j] show ?thesis by (simp add: add_zero_row)
  qed
qed

lemma map_times_zero: "map (\<lambda>k. 0 * k) xs = replicate (length xs) (0::int)"
  by (induction xs) simp_all

lemma map_times_one: "map (\<lambda>k. 1 * k) xs = (xs::int list)"
  by (induction xs) simp_all

lemma selection_bits: "list_all (\<lambda>s. s = 0 \<or> s = 1) ((replicate n (0::int))[i := 1])"
  using set_update_subset_insert [of "replicate n (0::int)" i 1]
  by (auto simp: list_all_iff)

lemma insert_impl_result:
  assumes shape: "has_shape STATE_SHAPE state"
      and key: "length key = NUMBER_OF_KEY_CHUNKS" "list_all (\<lambda>c. 0 \<le> c \<and> c < 2 ^ CHUNK_SIZE) key"
      and val: "length value = NUMBER_OF_VALUE_CHUNKS" "list_all (\<lambda>c. 0 \<le> c \<and> c < 2 ^ CHUNK_SIZE) value"
      and flags: "list_all (\<lambda>f. f = 0 \<or> f = 1) (get_column FLAG state)"
  shows "insert_impl state key value
       = Inr (case find (\<lambda>i. get_column FLAG state ! i = 0) [0..<NUMBER_OF_ENTRIES] of
                None \<Rightarrow> state
              | Some i \<Rightarrow> state[i := map2 (+) (state ! i) (1 # key @ value)])"
proof -
  let ?n = NUMBER_OF_ENTRIES
  let ?flags = "get_column FLAG state"
  let ?U = "\<lambda>s. s # map (\<lambda>k. s * k) key @ map (\<lambda>v. s * v) value"
  let ?w = "Suc (NUMBER_OF_KEY_CHUNKS + NUMBER_OF_VALUE_CHUNKS)"
  have rows: "length state = ?n" "list_all (\<lambda>row. length row = ?w) state"
    using shape by (simp_all add: has_shape_def STATE_SHAPE_def)
  have len: "length ?flags = ?n"
    using shape by (simp add: get_column_def has_shape_length)
  note loop = selection_of_flags [OF len flags]
  have step: "insert_impl state key value = Inr (map2 (map2 (+)) state (map ?U selection))"
    if sel: "selection_loop ?flags [0..<?n] (replicate ?n 0, 0) = (selection, found)"
      and l: "length selection = ?n" and b: "list_all (\<lambda>s. s = 0 \<or> s = 1) selection"
    for selection found
    using shape key(1) val(1) sel
    by (simp add: insert_impl_def Let_def lookup_all_broadcast [OF b key(2)]
        lookup_all_broadcast [OF b val(2)] state_update_rows [OF l key(1) val(1)])
  show ?thesis
  proof (cases "find (\<lambda>i. ?flags ! i = 0) [0..<?n]")
    case None
    with loop have "selection_loop ?flags [0..<?n] (replicate ?n 0, 0) = (replicate ?n 0, 0)"
      by simp
    from step [OF this]
    have "insert_impl state key value
        = Inr (map2 (map2 (+)) state (replicate (length state) (replicate ?w 0)))"
      using key(1) val(1) rows
      by (simp add: list_all_iff map_times_zero replicate_add [symmetric])
    with None add_rows_none [OF rows(2)] show ?thesis by simp
  next
    case (Some i)
    then have i: "i < ?n" by (simp add: find_upt_Some)
    from Some loop
    have "selection_loop ?flags [0..<?n] (replicate ?n 0, 0) = ((replicate ?n 0)[i := 1], 1)"
      by simp
    from step [OF this]
    have "insert_impl state key value
        = Inr (map2 (map2 (+)) state (map ?U ((replicate ?n 0)[i := 1])))"
      using selection_bits [of ?n i] by simp
    also have "map ?U ((replicate ?n 0)[i := 1])
        = (replicate (length state) (replicate ?w 0))[i := 1 # key @ value]"
      using key(1) val(1) rows
      by (simp add: map_update map_times_zero map_times_one replicate_add [symmetric]
         )
    finally show ?thesis
      using Some i rows add_rows_one [OF rows(2), of i] by simp
  qed
qed

subsection \<open>Insert into the first free row\<close>

lemma row_split:
  assumes "length row = Suc (k + v)"
  shows "row = row ! 0 # take k (drop 1 row) @ drop (Suc k) row"
  using assms by (cases row) simp_all

lemma zero_add_row: "length xs = n \<Longrightarrow> map2 (+) (replicate n (0::int)) xs = xs"
  by (induction xs arbitrary: n) auto

lemma get_column_nth: "i < length state \<Longrightarrow> get_column c state ! i = state ! i ! c"
  by (simp add: get_column_def)

lemma get_slice_KEY_nth:
  "i < length state \<Longrightarrow> get_slice KEY state ! i = take NUMBER_OF_KEY_CHUNKS (drop 1 (state ! i))"
  by (simp add: get_slice_def KEY_def)

lemma get_slice_VALUE_nth:
  "i < length state \<Longrightarrow> get_slice VALUE state ! i = drop (Suc NUMBER_OF_KEY_CHUNKS) (state ! i)"
  by (simp add: get_slice_def VALUE_def)

lemma free_zero_row:
  assumes "has_shape STATE_SHAPE state" and "i < NUMBER_OF_ENTRIES"
      and "get_column FLAG state ! i = 0"
      and "get_slice KEY state ! i = replicate NUMBER_OF_KEY_CHUNKS 0"
      and "get_slice VALUE state ! i = replicate NUMBER_OF_VALUE_CHUNKS 0"
  shows "state ! i = replicate (Suc (NUMBER_OF_KEY_CHUNKS + NUMBER_OF_VALUE_CHUNKS)) 0"
proof -
  from assms(1,2) have i: "i < length state" by (simp add: has_shape_length)
  from has_shape_nth [OF assms(1,2)]
  have len: "length (state ! i) = Suc (NUMBER_OF_KEY_CHUNKS + NUMBER_OF_VALUE_CHUNKS)" by simp
  from row_split [OF len]
  have "state ! i = state ! i ! 0 # take NUMBER_OF_KEY_CHUNKS (drop 1 (state ! i))
                      @ drop (Suc NUMBER_OF_KEY_CHUNKS) (state ! i)" .
  also have "\<dots> = 0 # replicate NUMBER_OF_KEY_CHUNKS 0 @ replicate NUMBER_OF_VALUE_CHUNKS 0"
    using assms(3-5) i
    by (simp only: get_column_nth get_slice_KEY_nth get_slice_VALUE_nth FLAG_def)
  finally show ?thesis by (simp add: replicate_add)
qed

lemma insert_impl_first_free:
  assumes shape: "has_shape STATE_SHAPE state"
      and key: "chunks_ok NUMBER_OF_KEY_CHUNKS key"
      and val: "chunks_ok NUMBER_OF_VALUE_CHUNKS value"
      and flags: "list_all (\<lambda>f. f = 0 \<or> f = 1) (get_column FLAG state)"
      and i: "i < NUMBER_OF_ENTRIES" "get_column FLAG state ! i = 0"
             "\<forall>j<i. get_column FLAG state ! j \<noteq> 0"
      and zero: "get_slice KEY state ! i = replicate NUMBER_OF_KEY_CHUNKS 0"
                "get_slice VALUE state ! i = replicate NUMBER_OF_VALUE_CHUNKS 0"
  shows "insert_impl state key value = Inr (state[i := 1 # key @ value])"
proof -
  from i have f: "find (\<lambda>i. get_column FLAG state ! i = 0) [0..<NUMBER_OF_ENTRIES] = Some i"
    by (simp add: find_upt_Some)
  from key val have k: "length key = NUMBER_OF_KEY_CHUNKS" and v: "length value = NUMBER_OF_VALUE_CHUNKS"
    by (simp_all add: chunks_ok_def)
  have row: "state ! i = replicate (Suc (NUMBER_OF_KEY_CHUNKS + NUMBER_OF_VALUE_CHUNKS)) 0"
    using shape i(1,2) zero by (rule free_zero_row)
  have "map2 (+) (state ! i) (1 # key @ value) = 1 # key @ value"
    unfolding row using k v zero_add_row [of "key @ value" "NUMBER_OF_KEY_CHUNKS + NUMBER_OF_VALUE_CHUNKS"]
    by simp
  with insert_impl_result [OF shape k _ v _ flags] key val f show ?thesis
    by (simp add: chunks_ok_def)
qed

lemma insert_impl_full:
  assumes shape: "has_shape STATE_SHAPE state"
      and key: "chunks_ok NUMBER_OF_KEY_CHUNKS key"
      and val: "chunks_ok NUMBER_OF_VALUE_CHUNKS value"
      and flags: "list_all (\<lambda>f. f = 1) (get_column FLAG state)"
  shows "insert_impl state key value = Inr state"
proof -
  have len: "length (get_column FLAG state) = NUMBER_OF_ENTRIES"
    using shape by (simp add: get_column_def has_shape_length)
  from flags have b: "list_all (\<lambda>f. f = 0 \<or> f = 1) (get_column FLAG state)"
    by (simp add: list_all_iff)
  from flags len have "\<forall>i<NUMBER_OF_ENTRIES. get_column FLAG state ! i \<noteq> 0"
    by (simp add: list_all_length)
  then have "find (\<lambda>i. get_column FLAG state ! i = 0) [0..<NUMBER_OF_ENTRIES] = None"
    by (simp add: find_upt_None)
  with insert_impl_result [OF shape _ _ _ _ b] key val show ?thesis
    by (simp add: chunks_ok_def)
qed

text \<open>
  Claim C1, as the code has it. The circuit adds the update to the old state, so the
  row it selects ends as the given key and value only when its chunks were zero before.
  For a state of \<open>STATE_SHAPE\<close> whose flags are 0 or 1, a key and a value within their
  widths and the first row \<open>i\<close> with flag 0, its key and value chunks being zero:
  \<open>_insert_impl\<close> returns the state with row \<open>i\<close> replaced by flag 1, the key and the
  value; every other row is the one it was.
\<close>

theorem insert_first_free_row:
  assumes "has_shape STATE_SHAPE state"
      and "chunks_ok NUMBER_OF_KEY_CHUNKS key"
      and "chunks_ok NUMBER_OF_VALUE_CHUNKS value"
      and "list_all (\<lambda>f. f = 0 \<or> f = 1) (get_column FLAG state)"
      and "i < NUMBER_OF_ENTRIES" and "get_column FLAG state ! i = 0"
      and "\<forall>j<i. get_column FLAG state ! j \<noteq> 0"
      and "get_slice KEY state ! i = replicate NUMBER_OF_KEY_CHUNKS 0"
      and "get_slice VALUE state ! i = replicate NUMBER_OF_VALUE_CHUNKS 0"
  shows "\<exists>new_state. insert_impl state key value = Inr new_state
           \<and> new_state = state[i := 1 # key @ value]
           \<and> has_shape STATE_SHAPE new_state
           \<and> get_column FLAG new_state ! i = 1
           \<and> get_slice KEY new_state ! i = key
           \<and> get_slice VALUE new_state ! i = value
           \<and> (\<forall>j<NUMBER_OF_ENTRIES. j \<noteq> i \<longrightarrow> new_state ! j = state ! j)"
proof -
  let ?new = "state[i := 1 # key @ value]"
  from assms(2,3) have k: "length key = NUMBER_OF_KEY_CHUNKS"
    and v: "length value = NUMBER_OF_VALUE_CHUNKS" by (simp_all add: chunks_ok_def)
  from assms(1,5) have i: "i < length ?new" "i < length state" by (simp_all add: has_shape_length)
  have "insert_impl state key value = Inr ?new"
    using assms by (rule insert_impl_first_free)
  moreover have "has_shape STATE_SHAPE ?new"
    using assms(1) k v
    by (auto simp: has_shape_def STATE_SHAPE_def list_all_iff dest!: set_update_subset_insert [THEN subsetD])
  moreover have "get_column FLAG ?new ! i = 1"
    using i by (simp add: get_column_nth FLAG_def)
  moreover have "get_slice KEY ?new ! i = key"
    using i k by (simp add: get_slice_KEY_nth)
  moreover have "get_slice VALUE ?new ! i = value"
    using i k by (simp add: get_slice_VALUE_nth)
  moreover have "\<forall>j<NUMBER_OF_ENTRIES. j \<noteq> i \<longrightarrow> ?new ! j = state ! j"
    by simp
  ultimately show ?thesis by blast
qed

text \<open>The theorem on the empty table, key 3 and value 4: the pair goes to row 0.\<close>

theorem insert_first_free_row_witness:
  "has_shape STATE_SHAPE (zeros STATE_SHAPE)
   \<and> chunks_ok NUMBER_OF_KEY_CHUNKS [0, 0, 0, 0, 0, 0, 0, 3]
   \<and> chunks_ok NUMBER_OF_VALUE_CHUNKS [0, 0, 0, 0, 0, 0, 0, 4]
   \<and> get_column FLAG (zeros STATE_SHAPE) ! 0 = 0
   \<and> insert_impl (zeros STATE_SHAPE) [0, 0, 0, 0, 0, 0, 0, 3] [0, 0, 0, 0, 0, 0, 0, 4]
       = Inr ((zeros STATE_SHAPE)[0 := [1, 0, 0, 0, 0, 0, 0, 0, 3, 0, 0, 0, 0, 0, 0, 0, 4]])"
proof -
  let ?Z = "zeros STATE_SHAPE"
  let ?K = "[0, 0, 0, 0, 0, 0, 0, 3::int]"
  let ?V = "[0, 0, 0, 0, 0, 0, 0, 4::int]"
  have h1: "has_shape STATE_SHAPE ?Z"
    by (simp add: has_shape_def zeros_def constants list_all_iff)
  have h2: "chunks_ok NUMBER_OF_KEY_CHUNKS ?K" by (simp add: chunks_ok_def constants)
  have h3: "chunks_ok NUMBER_OF_VALUE_CHUNKS ?V" by (simp add: chunks_ok_def constants)
  have h4: "list_all (\<lambda>f. f = 0 \<or> f = 1) (get_column FLAG ?Z)"
    by (simp add: get_column_def zeros_def constants list_all_iff)
  have h5: "0 < NUMBER_OF_ENTRIES" by (simp add: constants)
  have h6: "get_column FLAG ?Z ! 0 = 0" by (simp add: get_column_def zeros_def constants)
  have h7: "\<forall>j<0. get_column FLAG ?Z ! j \<noteq> 0" by simp
  have h8: "get_slice KEY ?Z ! 0 = replicate NUMBER_OF_KEY_CHUNKS 0"
    by (simp add: get_slice_def zeros_def constants)
  have h9: "get_slice VALUE ?Z ! 0 = replicate NUMBER_OF_VALUE_CHUNKS 0"
    by (simp add: get_slice_def zeros_def constants)
  from insert_first_free_row [OF h1 h2 h3 h4 h5 h6 h7 h8 h9] h1 h2 h3 h6
  show ?thesis by auto
qed

text \<open>
  The claim fails on the table that \<open>replace\<close> of key 0 by value 7 leaves of the empty
  table: every row is free and holds the value chunks of 7. Its flags are 0, its chunks
  are in range. Inserting key 5 with value 4 selects row 0 and adds: the row's value
  chunks end as those of 11, not of 4.
\<close>

theorem insert_adds_to_free_row_counterexample:
  "has_shape STATE_SHAPE (replicate 5 [0, 0, 0, 0, 0, 0, 0, 0, 0, 0, 0, 0, 0, 0, 0, 0, 7::int])
   \<and> list_all (\<lambda>f. f = 0 \<or> f = 1)
        (get_column FLAG (replicate 5 [0, 0, 0, 0, 0, 0, 0, 0, 0, 0, 0, 0, 0, 0, 0, 0, 7::int]))
   \<and> list_all (chunks_ok NUMBER_OF_KEY_CHUNKS)
        (get_slice KEY (replicate 5 [0, 0, 0, 0, 0, 0, 0, 0, 0, 0, 0, 0, 0, 0, 0, 0, 7::int]))
   \<and> list_all (chunks_ok NUMBER_OF_VALUE_CHUNKS)
        (get_slice VALUE (replicate 5 [0, 0, 0, 0, 0, 0, 0, 0, 0, 0, 0, 0, 0, 0, 0, 0, 7::int]))
   \<and> chunks_ok NUMBER_OF_KEY_CHUNKS [0, 0, 0, 0, 0, 0, 0, 5]
   \<and> chunks_ok NUMBER_OF_VALUE_CHUNKS [0, 0, 0, 0, 0, 0, 0, 4]
   \<and> insert_impl (replicate 5 [0, 0, 0, 0, 0, 0, 0, 0, 0, 0, 0, 0, 0, 0, 0, 0, 7::int])
        [0, 0, 0, 0, 0, 0, 0, 5] [0, 0, 0, 0, 0, 0, 0, 4]
       = Inr ([1, 0, 0, 0, 0, 0, 0, 0, 5, 0, 0, 0, 0, 0, 0, 0, 11::int]
              # replicate 4 [0, 0, 0, 0, 0, 0, 0, 0, 0, 0, 0, 0, 0, 0, 0, 0, 7::int])
   \<and> get_slice VALUE ([1, 0, 0, 0, 0, 0, 0, 0, 5, 0, 0, 0, 0, 0, 0, 0, 11::int]
              # replicate 4 [0, 0, 0, 0, 0, 0, 0, 0, 0, 0, 0, 0, 0, 0, 0, 0, 7::int]) ! 0
       \<noteq> [0, 0, 0, 0, 0, 0, 0, 4]"
proof -
  let ?S = "replicate 5 [0, 0, 0, 0, 0, 0, 0, 0, 0, 0, 0, 0, 0, 0, 0, 0, 7::int]"
  let ?K = "[0, 0, 0, 0, 0, 0, 0, 5::int]"
  let ?V = "[0, 0, 0, 0, 0, 0, 0, 4::int]"
  have h1: "has_shape STATE_SHAPE ?S"
    by (simp add: has_shape_def constants list_all_iff)
  have k: "length ?K = NUMBER_OF_KEY_CHUNKS" "list_all (\<lambda>c. 0 \<le> c \<and> c < 2 ^ CHUNK_SIZE) ?K"
    by (simp_all add: constants)
  have v: "length ?V = NUMBER_OF_VALUE_CHUNKS" "list_all (\<lambda>c. 0 \<le> c \<and> c < 2 ^ CHUNK_SIZE) ?V"
    by (simp_all add: constants)
  have fl: "get_column FLAG ?S = replicate 5 0"
    by (simp add: get_column_def constants)
  have h4: "list_all (\<lambda>f. f = 0 \<or> f = 1) (get_column FLAG ?S)"
    by (simp add: fl list_all_iff)
  have f: "find (\<lambda>i. get_column FLAG ?S ! i = 0) [0..<NUMBER_OF_ENTRIES] = Some 0"
    unfolding fl by (simp add: find_upt_Some NUMBER_OF_ENTRIES_def)
  have ins: "insert_impl ?S ?K ?V
      = Inr ([1, 0, 0, 0, 0, 0, 0, 0, 5, 0, 0, 0, 0, 0, 0, 0, 11] # replicate 4 [0, 0, 0, 0, 0, 0, 0, 0, 0, 0, 0, 0, 0, 0, 0, 0, 7])"
    using insert_impl_result [OF h1 k v h4] f by (simp add: numeral_eq_Suc)
  have ks: "list_all (chunks_ok NUMBER_OF_KEY_CHUNKS) (get_slice KEY ?S)"
    by (simp add: get_slice_def chunks_ok_def constants list_all_iff)
  have vs: "list_all (chunks_ok NUMBER_OF_VALUE_CHUNKS) (get_slice VALUE ?S)"
    by (simp add: get_slice_def chunks_ok_def constants list_all_iff)
  have ne: "get_slice VALUE ([1, 0, 0, 0, 0, 0, 0, 0, 5, 0, 0, 0, 0, 0, 0, 0, 11]
              # replicate 4 [0, 0, 0, 0, 0, 0, 0, 0, 0, 0, 0, 0, 0, 0, 0, 0, 7::int]) ! 0
       \<noteq> ?V"
    by (simp add: get_slice_def constants)
  from h1 h4 ks vs k v ins ne show ?thesis
    by (simp only: chunks_ok_def simp_thms)
qed

subsection \<open>Filling the table\<close>

text \<open>The table after the pairs \<open>done\<close> were inserted into the empty one: their rows, then
  free rows of zeros.\<close>

lemma filled_shape:
  assumes "list_all (\<lambda>(k, v). chunks_ok NUMBER_OF_KEY_CHUNKS k \<and> chunks_ok NUMBER_OF_VALUE_CHUNKS v) done"
      and "length done \<le> NUMBER_OF_ENTRIES"
  shows "has_shape STATE_SHAPE
           (map (\<lambda>(k, v). 1 # k @ v) done
            @ replicate (NUMBER_OF_ENTRIES - length done)
                (replicate (Suc (NUMBER_OF_KEY_CHUNKS + NUMBER_OF_VALUE_CHUNKS)) 0))"
  using assms by (auto simp: has_shape_def STATE_SHAPE_def list_all_iff chunks_ok_def)

lemma filled_flags:
  "get_column FLAG (map (\<lambda>(k, v). 1 # k @ v) done @ replicate m (replicate (Suc w) 0))
     = replicate (length done) 1 @ replicate m 0"
  by (induction "done") (auto simp: get_column_def FLAG_def)

lemma insert_into_filled:
  assumes dn: "list_all (\<lambda>(k, v). chunks_ok NUMBER_OF_KEY_CHUNKS k \<and> chunks_ok NUMBER_OF_VALUE_CHUNKS v) done"
      and room: "length done < NUMBER_OF_ENTRIES"
      and key: "chunks_ok NUMBER_OF_KEY_CHUNKS key"
      and val: "chunks_ok NUMBER_OF_VALUE_CHUNKS value"
  shows "insert_impl
           (map (\<lambda>(k, v). 1 # k @ v) done
            @ replicate (NUMBER_OF_ENTRIES - length done)
                (replicate (Suc (NUMBER_OF_KEY_CHUNKS + NUMBER_OF_VALUE_CHUNKS)) 0))
           key value
       = Inr (map (\<lambda>(k, v). 1 # k @ v) (done @ [(key, value)])
            @ replicate (NUMBER_OF_ENTRIES - length (done @ [(key, value)]))
                (replicate (Suc (NUMBER_OF_KEY_CHUNKS + NUMBER_OF_VALUE_CHUNKS)) 0))"
proof -
  let ?z = "replicate (Suc (NUMBER_OF_KEY_CHUNKS + NUMBER_OF_VALUE_CHUNKS)) (0::int)"
  let ?m = "NUMBER_OF_ENTRIES - length done"
  let ?rows = "map (\<lambda>(k, v). 1 # k @ v) done"
  let ?S = "?rows @ replicate ?m ?z"
  from room obtain m' where m': "?m = Suc m'" by (cases ?m) simp_all
  have len: "length ?rows = length done" by simp
  have shape: "has_shape STATE_SHAPE ?S"
    using dn room by (intro filled_shape) simp_all
  have flags: "get_column FLAG ?S = replicate (length done) 1 @ replicate ?m 0"
    by (rule filled_flags)
  have b: "list_all (\<lambda>f. f = 0 \<or> f = 1) (get_column FLAG ?S)"
    unfolding flags by (auto simp: list_all_iff)
  have free: "get_column FLAG ?S ! length done = 0"
    unfolding flags using m' by (simp add: nth_append)
  have used: "\<forall>j<length done. get_column FLAG ?S ! j \<noteq> 0"
    unfolding flags by (simp add: nth_append)
  have row: "?S ! length done = ?z"
    using m' by (simp add: nth_append)
  have l: "length done < length ?S" using room by simp
  have zk: "get_slice KEY ?S ! length done = replicate NUMBER_OF_KEY_CHUNKS 0"
    by (simp only: get_slice_KEY_nth [OF l] row) simp
  have zv: "get_slice VALUE ?S ! length done = replicate NUMBER_OF_VALUE_CHUNKS 0"
    by (simp only: get_slice_VALUE_nth [OF l] row) simp
  have "insert_impl ?S key value = Inr (?S[length done := 1 # key @ value])"
    using shape key val b room free used zk zv by (rule insert_impl_first_free)
  also have "?S[length done := 1 # key @ value]
      = ?rows @ (1 # key @ value) # replicate m' ?z"
    using m' by (simp add: list_update_append)
  also have "\<dots> = map (\<lambda>(k, v). 1 # k @ v) (done @ [(key, value)])
      @ replicate (NUMBER_OF_ENTRIES - length (done @ [(key, value)])) ?z"
    using m' by simp
  finally show ?thesis .
qed

lemma insert_all_filled:
  assumes "list_all (\<lambda>(k, v). chunks_ok NUMBER_OF_KEY_CHUNKS k \<and> chunks_ok NUMBER_OF_VALUE_CHUNKS v) done"
      and "list_all (\<lambda>(k, v). chunks_ok NUMBER_OF_KEY_CHUNKS k \<and> chunks_ok NUMBER_OF_VALUE_CHUNKS v) rest"
      and "length done + length rest \<le> NUMBER_OF_ENTRIES"
  shows "insert_all
           (map (\<lambda>(k, v). 1 # k @ v) done
            @ replicate (NUMBER_OF_ENTRIES - length done)
                (replicate (Suc (NUMBER_OF_KEY_CHUNKS + NUMBER_OF_VALUE_CHUNKS)) 0))
           rest
       = Inr (map (\<lambda>(k, v). 1 # k @ v) (done @ rest)
            @ replicate (NUMBER_OF_ENTRIES - length (done @ rest))
                (replicate (Suc (NUMBER_OF_KEY_CHUNKS + NUMBER_OF_VALUE_CHUNKS)) 0))"
  using assms
proof (induction rest arbitrary: "done")
  case Nil
  show ?case by simp
next
  case (Cons kv rest)
  obtain key "value" where kv: "kv = (key, value)" by (cases kv)
  from Cons.prems(2) kv have key: "chunks_ok NUMBER_OF_KEY_CHUNKS key"
    and val: "chunks_ok NUMBER_OF_VALUE_CHUNKS value"
    and rest: "list_all (\<lambda>(k, v). chunks_ok NUMBER_OF_KEY_CHUNKS k \<and> chunks_ok NUMBER_OF_VALUE_CHUNKS v) rest"
    by simp_all
  from Cons.prems(3) have room: "length done < NUMBER_OF_ENTRIES" by simp
  have dn': "list_all (\<lambda>(k, v). chunks_ok NUMBER_OF_KEY_CHUNKS k \<and> chunks_ok NUMBER_OF_VALUE_CHUNKS v)
               (done @ [(key, value)])"
    using Cons.prems(1) key val by simp
  have "length (done @ [(key, value)]) + length rest \<le> NUMBER_OF_ENTRIES"
    using Cons.prems(3) by simp
  from Cons.IH [OF dn' rest this] insert_into_filled [OF Cons.prems(1) room key val] kv
  show ?case by simp
qed

lemma insert_all_from_empty:
  assumes "list_all (\<lambda>(k, v). chunks_ok NUMBER_OF_KEY_CHUNKS k \<and> chunks_ok NUMBER_OF_VALUE_CHUNKS v) kvs"
      and "length kvs \<le> NUMBER_OF_ENTRIES"
  shows "insert_all (zeros STATE_SHAPE) kvs
       = Inr (map (\<lambda>(k, v). 1 # k @ v) kvs
            @ replicate (NUMBER_OF_ENTRIES - length kvs)
                (replicate (Suc (NUMBER_OF_KEY_CHUNKS + NUMBER_OF_VALUE_CHUNKS)) 0))"
  using insert_all_filled [of "[]" kvs] assms by (simp add: zeros_def STATE_SHAPE_def)

text \<open>
  Claim C4. For a state of \<open>STATE_SHAPE\<close> in which every flag is 1, and a key and a value
  within their widths, \<open>_insert_impl\<close> returns the state it was given, and no error. And
  \<open>NUMBER_OF_ENTRIES\<close> inserts into the empty table (of any keys and values within their
  widths, distinct or not) return a table that one more insert leaves as it is.
\<close>

theorem insert_full_table_unchanged:
  assumes "chunks_ok NUMBER_OF_KEY_CHUNKS key" and "chunks_ok NUMBER_OF_VALUE_CHUNKS value"
  shows "(has_shape STATE_SHAPE state \<and> list_all (\<lambda>f. f = 1) (get_column FLAG state)
            \<longrightarrow> insert_impl state key value = Inr state)
       \<and> (length kvs = NUMBER_OF_ENTRIES
            \<and> list_all (\<lambda>(k, v). chunks_ok NUMBER_OF_KEY_CHUNKS k \<and> chunks_ok NUMBER_OF_VALUE_CHUNKS v) kvs
            \<longrightarrow> (\<exists>full. insert_all (zeros STATE_SHAPE) kvs = Inr full
                   \<and> insert_impl full key value = Inr full))"
proof (intro conjI impI)
  assume "has_shape STATE_SHAPE state \<and> list_all (\<lambda>f. f = 1) (get_column FLAG state)"
  with assms show "insert_impl state key value = Inr state"
    by (simp add: insert_impl_full)
next
  let ?ok = "\<lambda>(k, v). chunks_ok NUMBER_OF_KEY_CHUNKS k \<and> chunks_ok NUMBER_OF_VALUE_CHUNKS v"
  let ?full = "map (\<lambda>(k, v). 1 # k @ v) kvs"
  assume a: "length kvs = NUMBER_OF_ENTRIES \<and> list_all ?ok kvs"
  then have run: "insert_all (zeros STATE_SHAPE) kvs = Inr ?full"
    using insert_all_from_empty [of kvs] by simp
  from a have shape: "has_shape STATE_SHAPE ?full"
    using filled_shape [of kvs] by simp
  have "get_column FLAG ?full = replicate (length kvs) 1"
    using filled_flags [of kvs 0] by simp
  then have "list_all (\<lambda>f. f = 1) (get_column FLAG ?full)"
    by (simp add: list_all_iff)
  with shape assms have "insert_impl ?full key value = Inr ?full"
    by (intro insert_impl_full)
  with run show "\<exists>full. insert_all (zeros STATE_SHAPE) kvs = Inr full
                   \<and> insert_impl full key value = Inr full"
    by blast
qed

text \<open>The theorem on the table of keys and values 1 to 5, and on the five inserts that
  build it.\<close>

theorem insert_full_table_unchanged_witness:
  "chunks_ok NUMBER_OF_KEY_CHUNKS [0, 0, 0, 0, 0, 0, 0, 6]
   \<and> chunks_ok NUMBER_OF_VALUE_CHUNKS [0, 0, 0, 0, 0, 0, 0, 6]
   \<and> has_shape STATE_SHAPE
        (map (\<lambda>n. 1 # (replicate 7 0 @ [n]) @ (replicate 7 0 @ [n])) [1, 2, 3, 4, 5::int])
   \<and> insert_impl (map (\<lambda>n. 1 # (replicate 7 0 @ [n]) @ (replicate 7 0 @ [n])) [1, 2, 3, 4, 5])
        [0, 0, 0, 0, 0, 0, 0, 6] [0, 0, 0, 0, 0, 0, 0, 6]
       = Inr (map (\<lambda>n. 1 # (replicate 7 0 @ [n]) @ (replicate 7 0 @ [n])) [1, 2, 3, 4, 5])
   \<and> (\<exists>full. insert_all (zeros STATE_SHAPE)
                (map (\<lambda>n. (replicate 7 0 @ [n], replicate 7 0 @ [n])) [1, 2, 3, 4, 5]) = Inr full
          \<and> insert_impl full [0, 0, 0, 0, 0, 0, 0, 6] [0, 0, 0, 0, 0, 0, 0, 6] = Inr full)"
proof -
  let ?K = "[0, 0, 0, 0, 0, 0, 0, 6::int]"
  let ?S = "map (\<lambda>n. 1 # (replicate 7 0 @ [n]) @ (replicate 7 0 @ [n])) [1, 2, 3, 4, 5::int]"
  let ?kvs = "map (\<lambda>n. (replicate 7 0 @ [n], replicate 7 0 @ [n])) [1, 2, 3, 4, 5::int]"
  have k: "chunks_ok NUMBER_OF_KEY_CHUNKS ?K" by (simp add: chunks_ok_def constants)
  have v: "chunks_ok NUMBER_OF_VALUE_CHUNKS ?K" by (simp add: chunks_ok_def constants)
  have s: "has_shape STATE_SHAPE ?S" by (simp add: has_shape_def constants)
  have f: "list_all (\<lambda>f. f = 1) (get_column FLAG ?S)" by (simp add: get_column_def constants)
  have l: "length ?kvs = NUMBER_OF_ENTRIES" by (simp add: constants)
  have a: "list_all (\<lambda>(k, v). chunks_ok NUMBER_OF_KEY_CHUNKS k \<and> chunks_ok NUMBER_OF_VALUE_CHUNKS v) ?kvs"
    by (simp add: chunks_ok_def constants list_all_iff)
  note t = insert_full_table_unchanged [OF k v, of ?S ?kvs]
  have c: "insert_impl ?S ?K ?K = Inr ?S"
    using conjunct1 [OF t, THEN mp, OF conjI [OF s f]] .
  have d: "\<exists>full. insert_all (zeros STATE_SHAPE) ?kvs = Inr full \<and> insert_impl full ?K ?K = Inr full"
    using conjunct2 [OF t, THEN mp, OF conjI [OF l a]] .
  from k v s c d show ?thesis by (intro conjI)
qed

section \<open>Replace and query\<close>

subsection \<open>The selection by key\<close>

lemma count_equal_le:
  "sum_list (map (\<lambda>d. if d = 0 then 1 else 0) (ds::int list)) \<le> int (length ds)"
  by (induction ds) simp_all

lemma count_equal_all:
  assumes "length a = length b"
  shows "sum_list (map (\<lambda>d. if d = 0 then 1 else 0) (map2 (-) a b)) = int (length a) \<longleftrightarrow> a = (b::int list)"
  using assms
proof (induction a b rule: list_induct2)
  case Nil
  show ?case by simp
next
  case (Cons x xs y ys)
  let ?rest = "sum_list (map (\<lambda>d. if d = 0 then 1 else 0) (map2 (-) xs ys))"
  have le: "?rest \<le> int (length xs)"
    using count_equal_le [of "map2 (-) xs ys"] Cons.hyps by simp
  show ?case
  proof (cases "x = y")
    case True
    with Cons.IH show ?thesis by simp
  next
    case False
    with le show ?thesis by simp
  qed
qed

lemma key_selection_eq:
  assumes "list_all (\<lambda>k. length k = NUMBER_OF_KEY_CHUNKS) keys" and "length key = NUMBER_OF_KEY_CHUNKS"
  shows "key_selection keys key = map (\<lambda>k. if k = key then 1 else 0) keys"
proof -
  have "(sum_list (map (\<lambda>d. if d = 0 then 1 else 0) (map2 (-) k key)) = int NUMBER_OF_KEY_CHUNKS)
          = (k = key)" if "length k = NUMBER_OF_KEY_CHUNKS" for k
    using count_equal_all [of k key] that assms(2) by simp
  with assms(1) show ?thesis
    by (simp add: key_selection_def list_all_iff)
qed

lemma selection_is_bits: "list_all (\<lambda>s. s = 0 \<or> s = 1) (map (\<lambda>k. if P k then 1 else (0::int)) keys)"
  by (induction keys) simp_all

lemma inverse_selection_is_bits:
  "list_all (\<lambda>s. s = 0 \<or> s = 1) (map (\<lambda>s. 1 - s) (map (\<lambda>k. if P k then 1 else (0::int)) keys))"
  by (induction keys) simp_all

lemma get_slice_KEY_lengths:
  assumes "has_shape STATE_SHAPE state"
  shows "list_all (\<lambda>k. length k = NUMBER_OF_KEY_CHUNKS) (get_slice KEY state)"
  using assms by (auto simp: get_slice_def KEY_def has_shape_def STATE_SHAPE_def list_all_iff)

lemma get_slice_KEY_map: "get_slice KEY state = map (\<lambda>row. take NUMBER_OF_KEY_CHUNKS (drop 1 row)) state"
  by (simp add: get_slice_def KEY_def)

lemma get_slice_VALUE_map: "get_slice VALUE state = map (drop (Suc NUMBER_OF_KEY_CHUNKS)) state"
  by (simp add: get_slice_def VALUE_def)

lemma set_slice_VALUE_map:
  "set_slice VALUE state (map f state) = map (\<lambda>row. take (Suc NUMBER_OF_KEY_CHUNKS) row @ f row) state"
  using map2_same [of "\<lambda>row xs. take (Suc NUMBER_OF_KEY_CHUNKS) row @ xs" "\<lambda>row. row" state f]
  by (simp add: set_slice_def VALUE_def)

subsection \<open>\<open>_replace_impl\<close>\<close>

lemma replace_impl_result:
  assumes shape: "has_shape STATE_SHAPE state"
      and key: "length key = NUMBER_OF_KEY_CHUNKS"
      and val: "chunks_ok NUMBER_OF_VALUE_CHUNKS value"
      and rows: "list_all (chunks_ok NUMBER_OF_VALUE_CHUNKS) (get_slice VALUE state)"
  shows "replace_impl state key value
       = Inr (map (\<lambda>row. if take NUMBER_OF_KEY_CHUNKS (drop 1 row) = key
                          then take (Suc NUMBER_OF_KEY_CHUNKS) row @ value else row) state)"
proof -
  let ?kf = "\<lambda>row. take NUMBER_OF_KEY_CHUNKS (drop 1 row)"
  let ?vf = "drop (Suc NUMBER_OF_KEY_CHUNKS) :: int list \<Rightarrow> int list"
  let ?sel = "\<lambda>row. if ?kf row = key then 1 else (0::int)"
  have sel: "key_selection (get_slice KEY state) key = map ?sel state"
    using key_selection_eq [OF get_slice_KEY_lengths [OF shape] key]
    by (simp add: get_slice_KEY_map comp_def)
  have b: "list_all (\<lambda>s. s = 0 \<or> s = 1) (map ?sel state)"
    by (rule selection_is_bits)
  have b': "list_all (\<lambda>s. s = 0 \<or> s = 1) (map (\<lambda>s. 1 - s) (map ?sel state))"
    by (rule inverse_selection_is_bits)
  from val have v: "list_all (\<lambda>c. 0 \<le> c \<and> c < 2 ^ CHUNK_SIZE) value"
    and vl: "length value = NUMBER_OF_VALUE_CHUNKS" by (simp_all add: chunks_ok_def)
  from rows have r: "list_all (list_all (\<lambda>c. 0 \<le> c \<and> c < 2 ^ CHUNK_SIZE)) (get_slice VALUE state)"
    by (simp add: list_all_iff chunks_ok_def)
  have setv: "lookup_all keep_selected_lut (map (\<lambda>s. map (\<lambda>v. s * 2 ^ CHUNK_SIZE + v) value) (map ?sel state))
            = Inr (map (\<lambda>s. map (\<lambda>v. s * v) value) (map ?sel state))"
    using b v by (rule lookup_all_broadcast)
  have kept: "lookup_all keep_selected_lut
                (map2 (\<lambda>s vs. map (\<lambda>v. s * 2 ^ CHUNK_SIZE + v) vs) (map (\<lambda>s. 1 - s) (map ?sel state))
                   (get_slice VALUE state))
            = Inr (map2 (\<lambda>s vs. map (\<lambda>v. s * v) vs) (map (\<lambda>s. 1 - s) (map ?sel state))
                   (get_slice VALUE state))"
    using b' r by (rule lookup_all_rowwise)
  have new_values:
    "map2 (map2 (+))
       (map2 (\<lambda>s vs. map (\<lambda>v. s * v) vs) (map (\<lambda>s. 1 - s) (map ?sel state)) (get_slice VALUE state))
       (map (\<lambda>s. map (\<lambda>v. s * v) value) (map ?sel state))
     = map (\<lambda>row. map2 (+) (map (\<lambda>v. (1 - ?sel row) * v) (?vf row)) (map (\<lambda>v. ?sel row * v) value)) state"
    by (simp add: get_slice_VALUE_map map2_same comp_def)
  have "replace_impl state key value
      = Inr (set_slice VALUE state
          (map (\<lambda>row. map2 (+) (map (\<lambda>v. (1 - ?sel row) * v) (?vf row)) (map (\<lambda>v. ?sel row * v) value)) state))"
    using shape key vl
    by (simp only: replace_impl_def Let_def sel setv kept new_values simp_thms if_True sum.case)
  also have "set_slice VALUE state
          (map (\<lambda>row. map2 (+) (map (\<lambda>v. (1 - ?sel row) * v) (?vf row)) (map (\<lambda>v. ?sel row * v) value)) state)
      = map (\<lambda>row. take (Suc NUMBER_OF_KEY_CHUNKS) row
               @ map2 (+) (map (\<lambda>v. (1 - ?sel row) * v) (?vf row)) (map (\<lambda>v. ?sel row * v) value)) state"
    by (rule set_slice_VALUE_map)
  also have "\<dots> = map (\<lambda>row. if ?kf row = key then take (Suc NUMBER_OF_KEY_CHUNKS) row @ value else row) state"
  proof (rule map_cong [OF refl])
    fix row assume "row \<in> set state"
    with shape have len: "length (?vf row) = NUMBER_OF_VALUE_CHUNKS"
      by (simp add: has_shape_def STATE_SHAPE_def list_all_iff)
    show "take (Suc NUMBER_OF_KEY_CHUNKS) row
               @ map2 (+) (map (\<lambda>v. (1 - ?sel row) * v) (?vf row)) (map (\<lambda>v. ?sel row * v) value)
        = (if ?kf row = key then take (Suc NUMBER_OF_KEY_CHUNKS) row @ value else row)"
    proof (cases "?kf row = key")
      case True
      then show ?thesis
        using len vl zero_add_row [of "value" NUMBER_OF_VALUE_CHUNKS]
        by (simp add: map_replicate_const)
    next
      case False
      then show ?thesis
        using len vl add_zero_row [of "?vf row" NUMBER_OF_VALUE_CHUNKS]
        by (simp add: map_replicate_const)
    qed
  qed
  finally show ?thesis .
qed

subsection \<open>\<open>_query_impl\<close>\<close>

lemma sum_list_indicator:
  "sum_list (map (\<lambda>x. if P x then 1 else 0) xs) = int (length (filter P xs))"
  by (induction xs) simp_all

lemma query_impl_result:
  assumes shape: "has_shape STATE_SHAPE state"
      and key: "length key = NUMBER_OF_KEY_CHUNKS"
      and rows: "list_all (chunks_ok NUMBER_OF_VALUE_CHUNKS) (get_slice VALUE state)"
  shows "query_impl state key
       = Inr (int (length (filter (\<lambda>k. k = key) (get_slice KEY state)))
              # sum_axis0 NUMBER_OF_VALUE_CHUNKS
                  (map2 (\<lambda>k vs. map (\<lambda>v. (if k = key then 1 else 0) * v) vs)
                     (get_slice KEY state) (get_slice VALUE state)))"
proof -
  let ?sel = "map (\<lambda>k. if k = key then 1 else (0::int)) (get_slice KEY state)"
  have sel: "key_selection (get_slice KEY state) key = ?sel"
    using get_slice_KEY_lengths [OF shape] key by (rule key_selection_eq)
  have b: "list_all (\<lambda>s. s = 0 \<or> s = 1) ?sel"
    by (rule selection_is_bits)
  from rows have r: "list_all (list_all (\<lambda>c. 0 \<le> c \<and> c < 2 ^ CHUNK_SIZE)) (get_slice VALUE state)"
    by (simp add: list_all_iff chunks_ok_def)
  have lk: "lookup_all keep_selected_lut
              (map2 (\<lambda>s vs. map (\<lambda>v. s * 2 ^ CHUNK_SIZE + v) vs) ?sel (get_slice VALUE state))
          = Inr (map2 (\<lambda>s vs. map (\<lambda>v. s * v) vs) ?sel (get_slice VALUE state))"
    using b r by (rule lookup_all_rowwise)
  have rows_eq: "map2 (\<lambda>s vs. map (\<lambda>v. s * v) vs) ?sel (get_slice VALUE state)
      = map2 (\<lambda>k vs. map (\<lambda>v. (if k = key then 1 else 0) * v) vs)
          (get_slice KEY state) (get_slice VALUE state)"
    by (simp add: zip_map1 split_def)
  have found: "sum_list ?sel = int (length (filter (\<lambda>k. k = key) (get_slice KEY state)))"
    by (rule sum_list_indicator)
  show ?thesis
    using shape key
    by (simp only: query_impl_def Let_def sel lk rows_eq found simp_thms if_True sum.case)
qed

lemma key_of_replaced_row:
  assumes "length row = Suc (k + m)"
  shows "take k (drop 1 (take (Suc k) row @ v)) = take k (drop 1 row)"
  using assms by (cases row) simp_all

text \<open>
  Claim C5. For a state of \<open>STATE_SHAPE\<close> with value chunks in range, a key of
  \<open>NUMBER_OF_KEY_CHUNKS\<close> chunks and a value within its width, \<open>_replace_impl\<close> returns a
  state of the same shape with the same flags and the same key chunks; the value chunks
  of a row are the given value where the row's key chunks equal the key's, and the row's
  own elsewhere.
\<close>

theorem replace_overwrites_matching_values:
  assumes "has_shape STATE_SHAPE state"
      and "chunks_ok NUMBER_OF_KEY_CHUNKS key"
      and "chunks_ok NUMBER_OF_VALUE_CHUNKS value"
      and "list_all (chunks_ok NUMBER_OF_KEY_CHUNKS) (get_slice KEY state)"
      and "list_all (chunks_ok NUMBER_OF_VALUE_CHUNKS) (get_slice VALUE state)"
  shows "\<exists>new_state. replace_impl state key value = Inr new_state
           \<and> has_shape STATE_SHAPE new_state
           \<and> get_column FLAG new_state = get_column FLAG state
           \<and> get_slice KEY new_state = get_slice KEY state
           \<and> (\<forall>i<NUMBER_OF_ENTRIES.
                 get_slice VALUE new_state ! i
                   = (if get_slice KEY state ! i = key then value else get_slice VALUE state ! i))"
proof -
  let ?kf = "\<lambda>row. take NUMBER_OF_KEY_CHUNKS (drop 1 row)"
  let ?f = "\<lambda>row. if ?kf row = key then take (Suc NUMBER_OF_KEY_CHUNKS) row @ value else row"
  let ?new = "map ?f state"
  from assms(2,3) have k: "length key = NUMBER_OF_KEY_CHUNKS"
    and v: "length value = NUMBER_OF_VALUE_CHUNKS" by (simp_all add: chunks_ok_def)
  have len: "length row = Suc (NUMBER_OF_KEY_CHUNKS + NUMBER_OF_VALUE_CHUNKS)" if "row \<in> set state" for row
    using assms(1) that by (simp add: has_shape_def STATE_SHAPE_def list_all_iff)
  have n: "length state = NUMBER_OF_ENTRIES" using assms(1) by (rule has_shape_length)
  have "replace_impl state key value = Inr ?new"
    using assms(1) k assms(3,5) by (rule replace_impl_result)
  moreover have "has_shape STATE_SHAPE ?new"
    using assms(1) v len by (auto simp: has_shape_def STATE_SHAPE_def list_all_iff)
  moreover have "get_column FLAG ?new = get_column FLAG state"
    using len by (auto simp: get_column_def FLAG_def nth_append)
  moreover have "get_slice KEY ?new = get_slice KEY state"
  proof -
    have "get_slice KEY ?new = map (\<lambda>row. ?kf (?f row)) state"
      by (simp only: get_slice_KEY_map map_map comp_def)
    also have "\<dots> = map ?kf state"
    proof (rule map_cong [OF refl])
      fix row assume r: "row \<in> set state"
      have h: "?kf (take (Suc NUMBER_OF_KEY_CHUNKS) row @ value) = ?kf row"
        using len [OF r] by (rule key_of_replaced_row)
      show "?kf (?f row) = ?kf row"
      proof (cases "?kf row = key")
        case True
        with h show ?thesis by (simp only: simp_thms if_True)
      next
        case False
        then show ?thesis by (simp only: simp_thms if_False)
      qed
    qed
    finally show ?thesis by (simp only: get_slice_KEY_map)
  qed
  moreover have "\<forall>i<NUMBER_OF_ENTRIES. get_slice VALUE ?new ! i
      = (if get_slice KEY state ! i = key then value else get_slice VALUE state ! i)"
    using n len by (auto simp: get_slice_KEY_map get_slice_VALUE_map)
  ultimately show ?thesis by blast
qed

text \<open>The theorem on the table that holds key 3 with value 4 in row 0, replacing the
  value of key 3 by 1.\<close>

theorem replace_overwrites_matching_values_witness:
  "has_shape STATE_SHAPE
     ([1, 0, 0, 0, 0, 0, 0, 0, 3, 0, 0, 0, 0, 0, 0, 0, 4::int] # replicate 4 (replicate 17 0))
   \<and> chunks_ok NUMBER_OF_KEY_CHUNKS [0, 0, 0, 0, 0, 0, 0, 3]
   \<and> chunks_ok NUMBER_OF_VALUE_CHUNKS [0, 0, 0, 0, 0, 0, 0, 1]
   \<and> (\<exists>new_state.
         replace_impl ([1, 0, 0, 0, 0, 0, 0, 0, 3, 0, 0, 0, 0, 0, 0, 0, 4] # replicate 4 (replicate 17 0))
           [0, 0, 0, 0, 0, 0, 0, 3] [0, 0, 0, 0, 0, 0, 0, 1] = Inr new_state
         \<and> get_slice VALUE new_state ! 0 = [0, 0, 0, 0, 0, 0, 0, 1]
         \<and> get_slice VALUE new_state ! 1 = [0, 0, 0, 0, 0, 0, 0, 0])"
proof -
  let ?S = "[1, 0, 0, 0, 0, 0, 0, 0, 3, 0, 0, 0, 0, 0, 0, 0, 4::int] # replicate 4 (replicate 17 0)"
  let ?K = "[0, 0, 0, 0, 0, 0, 0, 3::int]"
  let ?V = "[0, 0, 0, 0, 0, 0, 0, 1::int]"
  have h1: "has_shape STATE_SHAPE ?S" by code_simp
  have h2: "chunks_ok NUMBER_OF_KEY_CHUNKS ?K" by code_simp
  have h3: "chunks_ok NUMBER_OF_VALUE_CHUNKS ?V" by code_simp
  have h4: "list_all (chunks_ok NUMBER_OF_KEY_CHUNKS) (get_slice KEY ?S)" by code_simp
  have h5: "list_all (chunks_ok NUMBER_OF_VALUE_CHUNKS) (get_slice VALUE ?S)" by code_simp
  have e0: "get_slice KEY ?S ! 0 = ?K" by code_simp
  have e1: "get_slice KEY ?S ! 1 \<noteq> ?K" by code_simp
  have e2: "get_slice VALUE ?S ! 1 = [0, 0, 0, 0, 0, 0, 0, 0]" by code_simp
  have n: "0 < NUMBER_OF_ENTRIES" "1 < NUMBER_OF_ENTRIES" by (simp_all add: NUMBER_OF_ENTRIES_def)
  from replace_overwrites_matching_values [OF h1 h2 h3 h4 h5]
  obtain new_state where r: "replace_impl ?S ?K ?V = Inr new_state"
    and v: "\<forall>i<NUMBER_OF_ENTRIES. get_slice VALUE new_state ! i
              = (if get_slice KEY ?S ! i = ?K then ?V else get_slice VALUE ?S ! i)"
    by blast
  from v n(1) e0 have "get_slice VALUE new_state ! 0 = ?V" by simp
  moreover from v n(2) e1 e2 have "get_slice VALUE new_state ! 1 = [0, 0, 0, 0, 0, 0, 0, 0]" by simp
  ultimately show ?thesis using h1 h2 h3 r by blast
qed

subsection \<open>The sum over the rows\<close>

text \<open>\<open>np.sum(t, axis=0)\<close> column by column: entry \<open>j\<close> of the result is the sum of the
  entries \<open>j\<close> of all rows.\<close>

lemma sum_axis0_Nil: "sum_axis0 n [] = replicate n 0"
  by (simp add: sum_axis0_def)

lemma sum_axis0_Cons: "sum_axis0 n (row # rows) = map2 (+) row (sum_axis0 n rows)"
  by (simp add: sum_axis0_def)

lemma length_sum_axis0:
  "list_all (\<lambda>row. length row = n) rows \<Longrightarrow> length (sum_axis0 n rows) = n"
  by (induction rows) (simp_all add: sum_axis0_Nil sum_axis0_Cons)

lemma sum_axis0_nth:
  assumes "list_all (\<lambda>row. length row = n) rows" and "j < n"
  shows "sum_axis0 n rows ! j = (\<Sum>i<length rows. rows ! i ! j)"
  using assms
proof (induction rows)
  case Nil
  then show ?case by (simp add: sum_axis0_Nil)
next
  case (Cons row rows)
  then have l: "length row = n" and r: "list_all (\<lambda>row. length row = n) rows" by simp_all
  from length_sum_axis0 [OF r] l Cons.prems(2)
  have "sum_axis0 n (row # rows) ! j = row ! j + sum_axis0 n rows ! j"
    by (simp add: sum_axis0_Cons)
  also have "\<dots> = row ! j + (\<Sum>i<length rows. rows ! i ! j)"
    using Cons.IH [OF r Cons.prems(2)] by simp
  also have "\<dots> = (\<Sum>i<Suc (length rows). (row # rows) ! i ! j)"
    by (simp only: sum.lessThan_Suc_shift nth_Cons_0 nth_Cons_Suc)
  also have "\<dots> = (\<Sum>i<length (row # rows). (row # rows) ! i ! j)"
    by simp
  finally show ?case .
qed

lemma sum_axis0_columns:
  assumes "list_all (\<lambda>row. length row = n) rows"
  shows "sum_axis0 n rows = map (\<lambda>j. \<Sum>i<length rows. rows ! i ! j) [0..<n]"
  using length_sum_axis0 [OF assms] sum_axis0_nth [OF assms]
  by (intro nth_equalityI) simp_all

lemma selected_values_columns:
  assumes shape: "has_shape STATE_SHAPE state"
      and rows: "list_all (chunks_ok NUMBER_OF_VALUE_CHUNKS) (get_slice VALUE state)"
  shows "sum_axis0 NUMBER_OF_VALUE_CHUNKS
           (map2 (\<lambda>k vs. map (\<lambda>v. (if k = key then 1 else 0) * v) vs)
              (get_slice KEY state) (get_slice VALUE state))
       = map (\<lambda>j. \<Sum>i<NUMBER_OF_ENTRIES.
                     if get_slice KEY state ! i = key then get_slice VALUE state ! i ! j else 0)
           [0..<NUMBER_OF_VALUE_CHUNKS]"
proof -
  let ?keys = "get_slice KEY state" and ?vals = "get_slice VALUE state"
  let ?rows = "map2 (\<lambda>k vs. map (\<lambda>v. (if k = key then 1 else 0) * v) vs) ?keys ?vals"
  from shape have lk: "length ?keys = NUMBER_OF_ENTRIES" and lv: "length ?vals = NUMBER_OF_ENTRIES"
    by (simp_all add: get_slice_def has_shape_length)
  then have lr: "length ?rows = NUMBER_OF_ENTRIES" by simp
  from rows have w: "list_all (\<lambda>row. length row = NUMBER_OF_VALUE_CHUNKS) ?rows"
    by (auto simp: list_all_iff chunks_ok_def dest: set_zip_rightD)
  have entry: "?rows ! i ! j = (if ?keys ! i = key then ?vals ! i ! j else 0)"
    if "i < NUMBER_OF_ENTRIES" and "j < NUMBER_OF_VALUE_CHUNKS" for i j
  proof -
    from that(1) lv have "?vals ! i \<in> set ?vals" by simp
    with rows have "length (?vals ! i) = NUMBER_OF_VALUE_CHUNKS"
      by (simp add: list_all_iff chunks_ok_def)
    with that lk lv show ?thesis by simp
  qed
  have "sum_axis0 NUMBER_OF_VALUE_CHUNKS ?rows
      = map (\<lambda>j. \<Sum>i<length ?rows. ?rows ! i ! j) [0..<NUMBER_OF_VALUE_CHUNKS]"
    using w by (rule sum_axis0_columns)
  also have "\<dots> = map (\<lambda>j. \<Sum>i<NUMBER_OF_ENTRIES. if ?keys ! i = key then ?vals ! i ! j else 0)
                      [0..<NUMBER_OF_VALUE_CHUNKS]"
    unfolding lr by (intro map_cong refl sum.cong) (simp_all add: entry)
  finally show ?thesis .
qed

text \<open>
  Claim C3. For a state of \<open>STATE_SHAPE\<close> with chunks in range and a key within its width,
  \<open>_query_impl\<close> returns \<open>found\<close>, the number of rows whose key chunks equal the key's
  (their flags are not read), followed by \<open>value\<close>: chunk \<open>j\<close> of it is the sum, over all
  \<open>NUMBER_OF_ENTRIES\<close> rows, of the row's value chunk \<open>j\<close> where the row's key chunks equal
  the key's and of 0 where they do not. \<open>KeyValueDatabase.query\<close> on a database holding the
  state returns the database as it was, with \<open>None\<close> when \<open>found = 0\<close> and \<open>decode value\<close>
  otherwise.
\<close>

theorem query_found_and_value:
  assumes "has_shape STATE_SHAPE state"
      and "chunks_ok NUMBER_OF_KEY_CHUNKS key"
      and "list_all (chunks_ok NUMBER_OF_KEY_CHUNKS) (get_slice KEY state)"
      and "list_all (chunks_ok NUMBER_OF_VALUE_CHUNKS) (get_slice VALUE state)"
  shows "\<exists>found value.
           found = int (length (filter (\<lambda>k. k = key) (get_slice KEY state)))
         \<and> value = map (\<lambda>j. \<Sum>i<NUMBER_OF_ENTRIES.
                               if get_slice KEY state ! i = key
                               then get_slice VALUE state ! i ! j else 0)
                     [0..<NUMBER_OF_VALUE_CHUNKS]
         \<and> query_impl state key = Inr (found # value)
         \<and> (\<forall>self n. db_state self = state \<and> encode_key n = Inr key
               \<longrightarrow> KeyValueDatabase_query self n
                     = Inr (self, if found = 0 then None else Some (decode value)))"
proof -
  from assms(2) have k: "length key = NUMBER_OF_KEY_CHUNKS" by (simp add: chunks_ok_def)
  let ?found = "int (length (filter (\<lambda>k. k = key) (get_slice KEY state)))"
  let ?val = "map (\<lambda>j. \<Sum>i<NUMBER_OF_ENTRIES.
                           if get_slice KEY state ! i = key
                           then get_slice VALUE state ! i ! j else 0)
                  [0..<NUMBER_OF_VALUE_CHUNKS]"
  have q: "query_impl state key = Inr (?found # ?val)"
    using query_impl_result [OF assms(1) k assms(4)]
    by (simp only: selected_values_columns [OF assms(1,4)])
  then have "\<forall>self n. db_state self = state \<and> encode_key n = Inr key
      \<longrightarrow> KeyValueDatabase_query self n
            = Inr (self, if ?found = 0 then None else Some (decode ?val))"
    by (simp add: KeyValueDatabase_query_def)
  with q show ?thesis by blast
qed

text \<open>The theorem on a table whose rows 0 and 1 both hold key 3, with values 9 and 8,
  queried for key 3: two rows are found and the value is 17.\<close>

theorem query_found_and_value_witness:
  "has_shape STATE_SHAPE
     ([1, 0, 0, 0, 0, 0, 0, 0, 3, 0, 0, 0, 0, 0, 0, 0, 9::int]
      # [1, 0, 0, 0, 0, 0, 0, 0, 3, 0, 0, 0, 0, 0, 0, 0, 8]
      # replicate 3 (replicate 17 0))
   \<and> chunks_ok NUMBER_OF_KEY_CHUNKS [0, 0, 0, 0, 0, 0, 0, 3]
   \<and> query_impl ([1, 0, 0, 0, 0, 0, 0, 0, 3, 0, 0, 0, 0, 0, 0, 0, 9]
                  # [1, 0, 0, 0, 0, 0, 0, 0, 3, 0, 0, 0, 0, 0, 0, 0, 8]
                  # replicate 3 (replicate 17 0))
        [0, 0, 0, 0, 0, 0, 0, 3]
       = Inr [2, 0, 0, 0, 0, 0, 0, 0, 17]
   \<and> KeyValueDatabase_query
        \<lparr>db_state = [1, 0, 0, 0, 0, 0, 0, 0, 3, 0, 0, 0, 0, 0, 0, 0, 9]
                      # [1, 0, 0, 0, 0, 0, 0, 0, 3, 0, 0, 0, 0, 0, 0, 0, 8]
                      # replicate 3 (replicate 17 0)\<rparr> 3
       = Inr (\<lparr>db_state = [1, 0, 0, 0, 0, 0, 0, 0, 3, 0, 0, 0, 0, 0, 0, 0, 9]
                            # [1, 0, 0, 0, 0, 0, 0, 0, 3, 0, 0, 0, 0, 0, 0, 0, 8]
                            # replicate 3 (replicate 17 0)\<rparr>,
              Some 17)"
proof -
  let ?S = "[1, 0, 0, 0, 0, 0, 0, 0, 3, 0, 0, 0, 0, 0, 0, 0, 9::int]
            # [1, 0, 0, 0, 0, 0, 0, 0, 3, 0, 0, 0, 0, 0, 0, 0, 8]
            # replicate 3 (replicate 17 0)"
  let ?K = "[0, 0, 0, 0, 0, 0, 0, 3::int]"
  have h1: "has_shape STATE_SHAPE ?S" by code_simp
  have h2: "chunks_ok NUMBER_OF_KEY_CHUNKS ?K" by code_simp
  have h3: "list_all (chunks_ok NUMBER_OF_KEY_CHUNKS) (get_slice KEY ?S)" by code_simp
  have h4: "list_all (chunks_ok NUMBER_OF_VALUE_CHUNKS) (get_slice VALUE ?S)" by code_simp
  have f: "int (length (filter (\<lambda>k. k = ?K) (get_slice KEY ?S))) = 2" by code_simp
  have s: "map (\<lambda>j. \<Sum>i<NUMBER_OF_ENTRIES.
                      if get_slice KEY ?S ! i = ?K then get_slice VALUE ?S ! i ! j else 0)
             [0..<NUMBER_OF_VALUE_CHUNKS]
         = [0, 0, 0, 0, 0, 0, 0, 17]" by code_simp
  have e: "encode_key 3 = Inr ?K" by code_simp
  have d: "decode [0, 0, 0, 0, 0, 0, 0, 17] = 17" by code_simp
  from query_found_and_value [OF h1 h2 h3 h4] f s
  have q: "query_impl ?S ?K = Inr [2, 0, 0, 0, 0, 0, 0, 0, 17]"
    and db: "\<forall>self n. db_state self = ?S \<and> encode_key n = Inr ?K
               \<longrightarrow> KeyValueDatabase_query self n = Inr (self, Some (decode [0, 0, 0, 0, 0, 0, 0, 17]))"
    by simp_all
  from db e d have "KeyValueDatabase_query \<lparr>db_state = ?S\<rparr> 3 = Inr (\<lparr>db_state = ?S\<rparr>, Some 17)"
    by simp
  with h1 h2 q show ?thesis by (intro conjI)
qed

subsection \<open>A key that no row's chunks equal\<close>

lemma sum_axis0_zero_rows:
  "sum_axis0 n (replicate m (replicate n 0)) = replicate n 0"
  by (induction m) (simp_all add: sum_axis0_def add_zero_row)

lemma map_times_one_eta: "map ((*) (1::int)) xs = xs"
  by (induction xs) simp_all

text \<open>When the key chunks of no row, free or used, equal the key's, \<open>_replace_impl\<close> returns
  the state it was given and \<open>_query_impl\<close> returns \<open>found = 0\<close> and a zero value.\<close>

lemma replace_impl_no_matching_row:
  assumes "has_shape STATE_SHAPE state"
      and "chunks_ok NUMBER_OF_KEY_CHUNKS key"
      and "chunks_ok NUMBER_OF_VALUE_CHUNKS value"
      and "list_all (chunks_ok NUMBER_OF_VALUE_CHUNKS) (get_slice VALUE state)"
      and "list_all (\<lambda>k. k \<noteq> key) (get_slice KEY state)"
  shows "replace_impl state key value = Inr state"
proof -
  from assms(2) have k: "length key = NUMBER_OF_KEY_CHUNKS" by (simp add: chunks_ok_def)
  have "map (\<lambda>row. if take NUMBER_OF_KEY_CHUNKS (drop 1 row) = key
                    then take (Suc NUMBER_OF_KEY_CHUNKS) row @ value else row) state
      = map (\<lambda>row. row) state"
    using assms(5) by (intro map_cong) (auto simp: get_slice_KEY_map list_all_iff)
  with replace_impl_result [OF assms(1) k assms(3,4)] show ?thesis by simp
qed

lemma query_impl_no_matching_row:
  assumes "has_shape STATE_SHAPE state"
      and "chunks_ok NUMBER_OF_KEY_CHUNKS key"
      and "list_all (chunks_ok NUMBER_OF_VALUE_CHUNKS) (get_slice VALUE state)"
      and "list_all (\<lambda>k. k \<noteq> key) (get_slice KEY state)"
  shows "\<exists>value. query_impl state key = Inr (0 # value)"
proof -
  from assms(2) have k: "length key = NUMBER_OF_KEY_CHUNKS" by (simp add: chunks_ok_def)
  from assms(4) have "filter (\<lambda>k. k = key) (get_slice KEY state) = []"
    by (auto simp: filter_empty_conv list_all_iff)
  with query_impl_result [OF assms(1) k assms(3)] show ?thesis by simp
qed

subsection \<open>Insert, then query\<close>

text \<open>On the empty table, a key with a nonzero chunk is found once after its insert, with
  its value. The key of zero chunks is not covered: the free rows hold it too.\<close>

lemma empty_table_first_insert:
  assumes "chunks_ok NUMBER_OF_KEY_CHUNKS key" and "chunks_ok NUMBER_OF_VALUE_CHUNKS value"
  shows "insert_impl (zeros STATE_SHAPE) key value
       = Inr ((1 # key @ value)
              # replicate (NUMBER_OF_ENTRIES - 1)
                  (replicate (Suc (NUMBER_OF_KEY_CHUNKS + NUMBER_OF_VALUE_CHUNKS)) 0))"
  using insert_into_filled [of "[]" key "value"] assms
  by (simp add: zeros_def STATE_SHAPE_def NUMBER_OF_ENTRIES_def)

lemma insert_then_query_nonzero_key:
  assumes key: "chunks_ok NUMBER_OF_KEY_CHUNKS key" and val: "chunks_ok NUMBER_OF_VALUE_CHUNKS value"
      and nz: "key \<noteq> replicate NUMBER_OF_KEY_CHUNKS 0"
  shows "\<exists>new_state. insert_impl (zeros STATE_SHAPE) key value = Inr new_state
           \<and> query_impl new_state key = Inr (1 # value)"
proof -
  let ?z = "replicate (Suc (NUMBER_OF_KEY_CHUNKS + NUMBER_OF_VALUE_CHUNKS)) (0::int)"
  let ?m = "NUMBER_OF_ENTRIES - 1"
  let ?S = "(1 # key @ value) # replicate ?m ?z"
  from key val have k: "length key = NUMBER_OF_KEY_CHUNKS" and v: "length value = NUMBER_OF_VALUE_CHUNKS"
    and vr: "list_all (\<lambda>c. 0 \<le> c \<and> c < 2 ^ CHUNK_SIZE) value"
    by (simp_all add: chunks_ok_def)
  have ins: "insert_impl (zeros STATE_SHAPE) key value = Inr ?S"
    using key val by (rule empty_table_first_insert)
  have shape: "has_shape STATE_SHAPE ?S"
    using k v by (simp add: has_shape_def STATE_SHAPE_def NUMBER_OF_ENTRIES_def list_all_iff)
  have keys: "get_slice KEY ?S = key # replicate ?m (replicate NUMBER_OF_KEY_CHUNKS 0)"
    using k by (simp add: get_slice_KEY_map)
  have vals: "get_slice VALUE ?S = value # replicate ?m (replicate NUMBER_OF_VALUE_CHUNKS 0)"
    using k by (simp add: get_slice_VALUE_map)
  have rows: "list_all (chunks_ok NUMBER_OF_VALUE_CHUNKS) (get_slice VALUE ?S)"
    unfolding vals using val by (simp add: list_all_iff chunks_ok_def)
  have found: "filter (\<lambda>k. k = key) (get_slice KEY ?S) = [key]"
    unfolding keys using nz by (auto simp: filter_empty_conv)
  have prod: "map2 (\<lambda>k vs. map (\<lambda>v. (if k = key then 1 else 0) * v) vs) (get_slice KEY ?S) (get_slice VALUE ?S)
      = value # replicate ?m (replicate NUMBER_OF_VALUE_CHUNKS 0)"
    unfolding keys vals using nz
    by (simp add: zip_replicate map_replicate_const map_times_one_eta)
  have "query_impl ?S key = Inr (1 # value)"
    using query_impl_result [OF shape k rows] v
    by (simp only: found prod sum_axis0_Cons sum_axis0_zero_rows add_zero_row) simp
  with ins show ?thesis by blast
qed

subsection \<open>The key of zero chunks on a table with free rows\<close>

text \<open>
  Claim C2 at key 0. On the empty table, \<open>_insert_impl\<close> of key 0 with value 4 fills row 0;
  \<open>_query_impl\<close> of key 0 then returns the value chunks of 4 with \<open>found = 5\<close>, not 1: the
  four free rows hold zero key chunks and are counted too. The source's comment on
  \<open>_query_impl\<close> promises \<open>found: 1 if the key was found, 0 otherwise\<close>.
\<close>

theorem insert_then_query_zero_key:
  "chunks_ok NUMBER_OF_KEY_CHUNKS [0, 0, 0, 0, 0, 0, 0, 0]
   \<and> chunks_ok NUMBER_OF_VALUE_CHUNKS [0, 0, 0, 0, 0, 0, 0, 4]
   \<and> encode_key 0 = Inr [0, 0, 0, 0, 0, 0, 0, 0]
   \<and> insert_impl (zeros STATE_SHAPE) [0, 0, 0, 0, 0, 0, 0, 0] [0, 0, 0, 0, 0, 0, 0, 4]
       = Inr ([1, 0, 0, 0, 0, 0, 0, 0, 0, 0, 0, 0, 0, 0, 0, 0, 4] # replicate 4 (replicate 17 0))
   \<and> query_impl ([1, 0, 0, 0, 0, 0, 0, 0, 0, 0, 0, 0, 0, 0, 0, 0, 4] # replicate 4 (replicate 17 0))
        [0, 0, 0, 0, 0, 0, 0, 0]
       = Inr [5, 0, 0, 0, 0, 0, 0, 0, 4]"
  by code_simp

text \<open>
  Claim C8 at key 0. The empty table holds no pair, yet \<open>_replace_impl\<close> of key 0 by value 7
  writes the value chunks of 7 into every row: the result is not the table it was given.
  The source's comment on \<open>_replace_impl\<close> promises that nothing happens when the key is
  not in the database.
\<close>

theorem replace_zero_key_on_empty_table:
  "list_all (\<lambda>f. f = 0) (get_column FLAG (zeros STATE_SHAPE))
   \<and> chunks_ok NUMBER_OF_VALUE_CHUNKS [0, 0, 0, 0, 0, 0, 0, 7]
   \<and> replace_impl (zeros STATE_SHAPE) [0, 0, 0, 0, 0, 0, 0, 0] [0, 0, 0, 0, 0, 0, 0, 7]
       = Inr (replicate 5 [0, 0, 0, 0, 0, 0, 0, 0, 0, 0, 0, 0, 0, 0, 0, 0, 7])
   \<and> replicate 5 [0, 0, 0, 0, 0, 0, 0, 0, 0, 0, 0, 0, 0, 0, 0, 0, 7] \<noteq> zeros STATE_SHAPE"
  by code_simp

text \<open>
  Claim C9 at key 0. On the empty table, which holds no pair, \<open>_query_impl\<close> of key 0
  returns \<open>found = 5\<close>, and \<open>KeyValueDatabase.query(0)\<close> on the database as \<open>__init__\<close> leaves
  it returns the value 0 instead of \<open>None\<close>.
\<close>

theorem query_zero_key_on_empty_table:
  "list_all (\<lambda>f. f = 0) (get_column FLAG (zeros STATE_SHAPE))
   \<and> query_impl (zeros STATE_SHAPE) [0, 0, 0, 0, 0, 0, 0, 0] = Inr [5, 0, 0, 0, 0, 0, 0, 0, 0]
   \<and> KeyValueDatabase_query KeyValueDatabase_init 0 = Inr (KeyValueDatabase_init, Some 0)"
  by code_simp

section \<open>\<open>encode\<close> outside the range of its width\<close>

lemma encode_total: "encode n width = Inr (map bits_value (blocks_of (binary_repr n width)))"
  using encode_blocks [OF binary_repr_bits] by (simp add: encode_def)

lemma py_bin_length_eq:
  assumes "2 ^ j \<le> m" and "m < 2 ^ Suc j"
  shows "length (py_bin m) = Suc j"
proof -
  from assms(1) have pos: "0 < m"
    by (metis less_le_trans zero_less_numeral zero_less_power)
  have "(2::nat) ^ (length (py_bin m) - 1) \<le> m" using pos by (rule py_bin_lower)
  from this assms(2) have "(2::nat) ^ (length (py_bin m) - 1) < 2 ^ Suc j" by (rule le_less_trans)
  then have up: "length (py_bin m) - 1 < Suc j"
    using power_less_imp_less_exp [of 2 "length (py_bin m) - 1" "Suc j"] by simp
  from assms(1) py_bin_upper [of m] have "(2::nat) ^ j < 2 ^ length (py_bin m)" by (rule le_less_trans)
  then have "j < length (py_bin m)"
    using power_less_imp_less_exp [of 2 j "length (py_bin m)"] by simp
  with up show ?thesis by simp
qed

lemma bits_value_ones_then:
  assumes "length s = q" and "q \<le> t"
  shows "bits_value (replicate (t - q) (CHR ''1'') @ s) = 2 ^ t - 2 ^ q + bits_value s"
proof -
  have "(2::int) ^ (t - q) * 2 ^ q = 2 ^ t"
    using assms(2) by (simp add: power_add [symmetric])
  then show ?thesis
    using assms(1) by (simp add: bits_value_append bits_value_replicate_one algebra_simps)
qed

text \<open>The two's complement of a negative number: \<open>q\<close> digits suffice for it, and no fewer;
  the string has \<open>max q width\<close> digits and the value \<open>2 ^ max q width + n\<close>.\<close>

lemma binary_repr_negative:
  assumes "n < 0"
  shows "\<exists>q. 1 \<le> q \<and> - n \<le> 2 ^ (q - 1) \<and> (2 \<le> q \<longrightarrow> 2 ^ (q - 2) < - n)
           \<and> length (binary_repr n w) = max q w
           \<and> bits_value (binary_repr n w) = 2 ^ max q w + n"
proof -
  define N where "N = nat (- n)"
  define p where "p = length (py_bin N)"
  from assms have N: "int N = - n" and Npos: "0 < N" by (simp_all add: N_def)
  have p1: "1 \<le> p" using length_py_bin_pos [of N] by (simp add: p_def Suc_le_eq)
  then obtain p' where p': "p = Suc p'" by (cases p) simp_all
  have lo: "2 ^ p' \<le> N" using py_bin_lower [OF Npos] by (simp add: p_def [symmetric] p')
  have hi: "N < 2 ^ p" using py_bin_upper [of N] by (simp add: p_def)
  show ?thesis
  proof (cases "(2::int) ^ (p - 1) = - n")
    case True
    then have Neq: "N = 2 ^ p'"
      using N by (simp add: p') (metis of_nat_eq_iff of_nat_numeral of_nat_power)
    have tw: "nat ((2::int) ^ (p - 1 + 1) + n) = N"
      using True p1 N by (simp add: p')
    have r: "binary_repr n w = replicate (max p w - p) (CHR ''1'') @ py_bin N"
      using assms True tw by (simp add: binary_repr_def Let_def N_def [symmetric] p_def [symmetric])
    have len: "length (binary_repr n w) = max p w"
      unfolding r by (simp add: p_def [symmetric])
    have "bits_value (binary_repr n w) = 2 ^ max p w - 2 ^ p + bits_value (py_bin N)"
      unfolding r by (rule bits_value_ones_then) (simp_all add: p_def)
    also have "\<dots> = 2 ^ max p w - 2 ^ p + 2 ^ p'"
      by (simp add: py_bin_value Neq)
    also have "\<dots> = 2 ^ max p w + n"
      using N Neq by (simp add: p')
    finally have val: "bits_value (binary_repr n w) = 2 ^ max p w + n" .
    have c1: "- n \<le> 2 ^ (p - 1)" using True by simp
    have c2: "2 \<le> p \<longrightarrow> 2 ^ (p - 2) < - n"
    proof
      assume "2 \<le> p"
      then obtain p'' where p'': "p' = Suc p''" using p' by (cases p') simp_all
      have "(2::int) ^ p'' < 2 * 2 ^ p''" by simp
      also have "\<dots> = - n" using True p' p'' by simp
      finally show "2 ^ (p - 2) < - n" using p' p'' by simp
    qed
    from p1 c1 c2 len val show ?thesis by blast
  next
    case False
    with lo N have lo': "2 ^ p' < N"
      by (simp add: p') (metis le_neq_implies_less of_nat_numeral of_nat_power)
    define T where "T = 2 ^ Suc p - N"
    have Tint: "(2::int) ^ (p + 1) + n = int T"
      using hi N by (simp add: T_def of_nat_diff)
    have Tlo: "2 ^ p \<le> T" using hi by (simp add: T_def)
    have Thi: "T < 2 ^ Suc p" using Npos by (simp add: T_def)
    have lenT: "length (py_bin T) = Suc p" using Tlo Thi by (rule py_bin_length_eq)
    have r: "binary_repr n w = replicate (max (Suc p) w - Suc p) (CHR ''1'') @ py_bin T"
      using assms False Tint lenT
      by (simp add: binary_repr_def Let_def N_def [symmetric] p_def [symmetric])
    have len: "length (binary_repr n w) = max (Suc p) w"
      unfolding r by (simp add: lenT)
    have "bits_value (binary_repr n w) = 2 ^ max (Suc p) w - 2 ^ Suc p + bits_value (py_bin T)"
      unfolding r by (rule bits_value_ones_then) (simp_all add: lenT)
    also have "\<dots> = 2 ^ max (Suc p) w - 2 ^ Suc p + ((2::int) ^ (p + 1) + n)"
      by (simp only: py_bin_value Tint)
    also have "\<dots> = 2 ^ max (Suc p) w + n" by simp
    finally have val: "bits_value (binary_repr n w) = 2 ^ max (Suc p) w + n" .
    have c1: "- n \<le> 2 ^ (Suc p - 1)"
      using hi N by (simp add: less_imp_le) (metis of_nat_less_iff of_nat_numeral of_nat_power less_imp_le)
    have c2: "2 \<le> Suc p \<longrightarrow> 2 ^ (Suc p - 2) < - n"
      using lo' N p' by simp (metis of_nat_less_iff of_nat_numeral of_nat_power)
    have "1 \<le> Suc p" by simp
    from this c1 c2 len val show ?thesis by blast
  qed
qed

lemma binary_repr_large:
  assumes "2 ^ w \<le> n"
  shows "w < length (binary_repr n w)"
proof -
  have pos: "0 < n"
    using assms by (metis less_le_trans zero_less_numeral zero_less_power)
  have "(2::nat) ^ w \<le> nat n"
    using assms by (metis nat_mono nat_numeral nat_power_eq zero_le_numeral)
  from this py_bin_upper [of "nat n"] have "(2::nat) ^ w < 2 ^ length (py_bin (nat n))"
    by (rule le_less_trans)
  then have "w < length (py_bin (nat n))"
    using power_less_imp_less_exp [of 2 w "length (py_bin (nat n))"] by simp
  with pos show ?thesis
    by (simp add: binary_repr_def Let_def)
qed

lemma binary_repr_too_negative:
  assumes "n < - (2 ^ (w - 1))" and "0 < w"
  shows "w < length (binary_repr n w)"
proof -
  have neg: "n < 0"
  proof -
    have "- ((2::int) ^ (w - 1)) < 0" by simp
    with assms(1) show ?thesis by (rule less_trans)
  qed
  from binary_repr_negative [OF neg, of w]
  obtain q where q: "1 \<le> q" "- n \<le> 2 ^ (q - 1)" "length (binary_repr n w) = max q w"
    by blast
  from assms(1) have "(2::int) ^ (w - 1) < - n" by simp
  from this q(2) have "(2::int) ^ (w - 1) < 2 ^ (q - 1)" by (rule less_le_trans)
  then have "w - 1 < q - 1"
    using power_less_imp_less_exp [of "2::int" "w - 1" "q - 1"] by simp
  with assms(2) q(1) have "w < q" by simp
  with q(3) show ?thesis by simp
qed

lemma binary_repr_wraps:
  assumes "- (2 ^ (w - 1)) \<le> n" and "n < 0" and "0 < w"
  shows "binary_repr n w = binary_repr (n + 2 ^ w) w"
proof -
  from binary_repr_negative [OF assms(2), of w]
  obtain q where q: "1 \<le> q" "2 \<le> q \<longrightarrow> 2 ^ (q - 2) < - n"
    and len: "length (binary_repr n w) = max q w"
    and val: "bits_value (binary_repr n w) = 2 ^ max q w + n"
    by blast
  have qw: "q \<le> w"
  proof (cases "2 \<le> q")
    case True
    with q(2) have "(2::int) ^ (q - 2) < - n" by simp
    also have "- n \<le> 2 ^ (w - 1)" using assms(1) by simp
    finally have "q - 2 < w - 1"
      using power_less_imp_less_exp [of "2::int" "q - 2" "w - 1"] by simp
    with True assms(3) show ?thesis by simp
  next
    case False
    with q(1) assms(3) show ?thesis by simp
  qed
  then have m: "max q w = w" by simp
  have "(2::int) ^ (w - 1) \<le> 2 ^ w" by (rule power_increasing) simp_all
  with assms(1) have nonneg: "0 \<le> n + 2 ^ w" by linarith
  from assms(2) have below: "n + 2 ^ w < 2 ^ w" by simp
  from binary_repr_nonneg [OF nonneg below assms(3)]
  have len': "length (binary_repr (n + 2 ^ w) w) = w"
    and val': "bits_value (binary_repr (n + 2 ^ w) w) = n + 2 ^ w" by simp_all
  show ?thesis
  proof (rule bits_value_inject)
    show "length (binary_repr n w) = length (binary_repr (n + 2 ^ w) w)"
      using len len' m by simp
    show "list_all is_bit (binary_repr n w)" by (rule binary_repr_bits)
    show "list_all is_bit (binary_repr (n + 2 ^ w) w)" by (rule binary_repr_bits)
    show "bits_value (binary_repr n w) = bits_value (binary_repr (n + 2 ^ w) w)"
      using val val' m by simp
  qed
qed

lemma more_blocks:
  assumes "m * CHUNK_SIZE < length s"
  shows "m < length (blocks_of s)"
proof -
  have c: "0 < CHUNK_SIZE" by (rule CHUNK_SIZE_pos)
  from assms c have "m * CHUNK_SIZE + CHUNK_SIZE \<le> length s + CHUNK_SIZE - 1" by simp
  then have "(m * CHUNK_SIZE + CHUNK_SIZE) div CHUNK_SIZE \<le> (length s + CHUNK_SIZE - 1) div CHUNK_SIZE"
    by (rule div_le_mono)
  moreover have "(m * CHUNK_SIZE + CHUNK_SIZE) div CHUNK_SIZE = Suc m"
    using c by simp
  ultimately show ?thesis by (simp add: length_blocks_of)
qed

text \<open>
  Claim C10, as the code has it. \<open>encode\<close> checks no range and raises for no number: it
  returns chunks for every \<open>n\<close> and every width. For a positive width divisible by
  \<open>CHUNK_SIZE\<close>: a negative \<open>n\<close> down to \<open>- 2 ^ (width - 1)\<close> is encoded as \<open>n + 2 ^ width\<close>, its
  two's complement; every other \<open>n\<close> outside \<open>[0, 2 ^ width)\<close> is encoded in more than
  \<open>width div CHUNK_SIZE\<close> chunks.
\<close>

theorem encode_out_of_range:
  assumes "0 < width" and "width mod CHUNK_SIZE = 0"
  shows "(\<exists>chunks. encode n width = Inr chunks)
       \<and> (- (2 ^ (width - 1)) \<le> n \<and> n < 0 \<longrightarrow> encode n width = encode (n + 2 ^ width) width)
       \<and> (2 ^ width \<le> n \<or> n < - (2 ^ (width - 1))
            \<longrightarrow> (\<exists>chunks. encode n width = Inr chunks \<and> width div CHUNK_SIZE < length chunks))"
proof (intro conjI impI)
  show "\<exists>chunks. encode n width = Inr chunks"
    by (simp add: encode_total)
next
  assume "- (2 ^ (width - 1)) \<le> n \<and> n < 0"
  then have "binary_repr n width = binary_repr (n + 2 ^ width) width"
    using assms(1) by (simp add: binary_repr_wraps)
  then show "encode n width = encode (n + 2 ^ width) width"
    by (simp add: encode_def)
next
  assume out: "2 ^ width \<le> n \<or> n < - (2 ^ (width - 1))"
  from assms(2) have "CHUNK_SIZE dvd width" by (simp add: dvd_eq_mod_eq_0)
  then obtain m where m: "width = m * CHUNK_SIZE"
    by (auto simp: dvd_def mult.commute)
  from out have "width < length (binary_repr n width)"
    using assms(1) binary_repr_large [of width n] binary_repr_too_negative [of n width] by blast
  then have "m < length (blocks_of (binary_repr n width))"
    unfolding m by (rule more_blocks)
  moreover have "width div CHUNK_SIZE = m"
    using m CHUNK_SIZE_pos by simp
  ultimately show "\<exists>chunks. encode n width = Inr chunks \<and> width div CHUNK_SIZE < length chunks"
    by (simp add: encode_total)
qed

text \<open>The theorem at width 32: \<open>-1\<close> is encoded as \<open>2 ^ 32 - 1\<close>, and \<open>2 ^ 32\<close> in more than
  8 chunks.\<close>

theorem encode_out_of_range_witness:
  "(0::nat) < 32 \<and> 32 mod CHUNK_SIZE = 0
   \<and> encode (- 1) 32 = encode 4294967295 32
   \<and> (\<exists>chunks. encode 4294967296 32 = Inr chunks \<and> 32 div CHUNK_SIZE < length chunks)"
proof -
  have w: "(0::nat) < 32" by simp
  have d: "32 mod CHUNK_SIZE = 0" by (simp add: CHUNK_SIZE_def)
  from encode_out_of_range [OF w d, of "- 1"]
  have a: "encode (- 1) 32 = encode 4294967295 32" by simp
  from encode_out_of_range [OF w d, of 4294967296]
  have b: "\<exists>chunks. encode 4294967296 32 = Inr chunks \<and> 32 div CHUNK_SIZE < length chunks" by simp
  from w d a b show ?thesis by (intro conjI)
qed

text \<open>
  \<open>-1\<close> is outside \<open>[0, 2 ^ KEY_SIZE)\<close>, and \<open>encode_key\<close> returns the eight chunks of
  \<open>2 ^ 32 - 1\<close> for it; \<open>KeyValueDatabase.insert(-1, 4)\<close> on the new database raises nothing
  and stores the pair under those chunks.
\<close>

theorem encode_negative_counterexample:
  "(- 1 :: int) < 0
   \<and> encode_key (- 1) = Inr [15, 15, 15, 15, 15, 15, 15, 15]
   \<and> KeyValueDatabase_insert KeyValueDatabase_init (- 1) 4
       = Inr \<lparr>db_state = [1, 15, 15, 15, 15, 15, 15, 15, 15, 0, 0, 0, 0, 0, 0, 0, 4]
                          # replicate 4 (replicate 17 0)\<rparr>"
  by code_simp

section \<open>Properties of the one-chunk store\<close>

subsection \<open>\<open>_insert_impl\<close> of KVStore_4bit.py\<close>

lemma lut2_eq: "lut2 = keep_selected_lut"
  by (simp add: lut2_def keep_selected_lut_def)

lemma lookup_lut_zero:
  assumes "found = 0 \<or> found = 1" and "flag = 0 \<or> flag = 1"
  shows "lookup lut_zero (found * 2 + flag) = Inr (if found * 2 + flag = 0 then 1 else 0)"
  using assms by (auto simp: lookup_def lut_zero_def)

text \<open>On flags that are 0 or 1 the table \<open>lut_zero\<close> computes the comparison with zero: the
  two selection loops agree.\<close>

lemma selection_loop_4bit_eq:
  assumes "list_all (\<lambda>i. flags ! i = 0 \<or> flags ! i = 1) indices" and "found = 0 \<or> found = 1"
  shows "selection_loop_4bit flags indices (selection, found)
       = Inr (selection_loop flags indices (selection, found))"
  using assms
proof (induction indices arbitrary: selection found)
  case Nil
  show ?case by simp
next
  case (Cons i indices)
  from Cons.prems have f: "flags ! i = 0 \<or> flags ! i = 1"
    and rest: "list_all (\<lambda>i. flags ! i = 0 \<or> flags ! i = 1) indices" by simp_all
  let ?s = "if found * 2 + flags ! i = 0 then 1 else (0::int)"
  have l: "lookup lut_zero (found * 2 + flags ! i) = Inr ?s"
    using Cons.prems(2) f by (rule lookup_lut_zero)
  have "found + ?s = 0 \<or> found + ?s = 1"
    using Cons.prems(2) f by auto
  from Cons.IH [OF rest this, of "selection[i := ?s]"] l show ?case
    by (simp add: Let_def)
qed

lemma state_update_rows_4bit:
  assumes "length selection = NUMBER_OF_ENTRIES"
      and "length key_update = NUMBER_OF_KEY_CHUNKS_4bit"
      and "length value_update = NUMBER_OF_VALUE_CHUNKS_4bit"
  shows "set_slice VALUE_4bit
           (set_slice KEY_4bit (set_column FLAG (zeros STATE_SHAPE_4bit) selection)
              (map (\<lambda>s. map (\<lambda>k. s * k) key_update) selection))
           (map (\<lambda>s. map (\<lambda>v. s * v) value_update) selection)
       = map (\<lambda>s. s # map (\<lambda>k. s * k) key_update @ map (\<lambda>v. s * v) value_update) selection"
proof -
  have one: "NUMBER_OF_KEY_CHUNKS_4bit = 1" "NUMBER_OF_VALUE_CHUNKS_4bit = 1"
    by (simp_all add: NUMBER_OF_KEY_CHUNKS_4bit_def NUMBER_OF_VALUE_CHUNKS_4bit_def
        KEY_SIZE_4bit_def VALUE_SIZE_4bit_def CHUNK_SIZE_def)
  have flag: "set_column FLAG (zeros STATE_SHAPE_4bit) selection = map (\<lambda>s. [s, 0, 0]) selection"
    using assms(1)
    by (simp add: set_column_def zeros_def STATE_SHAPE_4bit_def FLAG_def map2_replicate_left
        numeral_3_eq_3)
  have keys: "set_slice KEY_4bit (map (\<lambda>s. [s, 0, 0]) selection)
                (map (\<lambda>s. map (\<lambda>k. s * k) key_update) selection)
            = map (\<lambda>s. s # map (\<lambda>k. s * k) key_update @ [0]) selection"
    by (simp add: set_slice_def KEY_4bit_def map2_same one)
  have vals: "set_slice VALUE_4bit
                (map (\<lambda>s. s # map (\<lambda>k. s * k) key_update @ [0]) selection)
                (map (\<lambda>s. map (\<lambda>v. s * v) value_update) selection)
            = map (\<lambda>s. s # map (\<lambda>k. s * k) key_update @ map (\<lambda>v. s * v) value_update) selection"
    using assms(2) by (simp add: set_slice_def VALUE_4bit_def map2_same one)
  show ?thesis by (simp only: flag keys vals)
qed

lemma insert_impl_4bit_result:
  assumes shape: "has_shape STATE_SHAPE_4bit state"
      and key: "chunks_ok NUMBER_OF_KEY_CHUNKS_4bit key"
      and val: "chunks_ok NUMBER_OF_VALUE_CHUNKS_4bit value"
      and flags: "list_all (\<lambda>f. f = 0 \<or> f = 1) (get_column FLAG state)"
  shows "insert_impl_4bit state key value
       = Inr (case find (\<lambda>i. get_column FLAG state ! i = 0) [0..<NUMBER_OF_ENTRIES] of
                None \<Rightarrow> state
              | Some i \<Rightarrow> state[i := map2 (+) (state ! i) (1 # key @ value)])"
proof -
  let ?n = NUMBER_OF_ENTRIES
  let ?flags = "get_column FLAG state"
  let ?U = "\<lambda>s. s # map (\<lambda>k. s * k) key @ map (\<lambda>v. s * v) value"
  have one: "NUMBER_OF_KEY_CHUNKS_4bit = 1" "NUMBER_OF_VALUE_CHUNKS_4bit = 1"
    by (simp_all add: NUMBER_OF_KEY_CHUNKS_4bit_def NUMBER_OF_VALUE_CHUNKS_4bit_def
        KEY_SIZE_4bit_def VALUE_SIZE_4bit_def CHUNK_SIZE_def)
  from key val have k: "length key = NUMBER_OF_KEY_CHUNKS_4bit"
    and kr: "list_all (\<lambda>c. 0 \<le> c \<and> c < 2 ^ CHUNK_SIZE) key"
    and v: "length value = NUMBER_OF_VALUE_CHUNKS_4bit"
    and vr: "list_all (\<lambda>c. 0 \<le> c \<and> c < 2 ^ CHUNK_SIZE) value"
    by (simp_all add: chunks_ok_def)
  have rows: "length state = ?n" "list_all (\<lambda>row. length row = Suc (Suc (Suc 0))) state"
    using shape by (simp_all add: has_shape_def STATE_SHAPE_4bit_def)
  have len: "length ?flags = ?n"
    using rows by (simp add: get_column_def)
  have fl: "list_all (\<lambda>i. ?flags ! i = 0 \<or> ?flags ! i = 1) [0..<?n]"
    using flags len by (simp add: list_all_length)
  have loop4: "selection_loop_4bit ?flags [0..<?n] (replicate ?n 0, 0)
             = Inr (selection_loop ?flags [0..<?n] (replicate ?n 0, 0))"
    using fl by (rule selection_loop_4bit_eq) simp
  note loop = selection_of_flags [OF len flags]
  have step: "insert_impl_4bit state key value = Inr (map2 (map2 (+)) state (map ?U selection))"
    if sel: "selection_loop ?flags [0..<?n] (replicate ?n 0, 0) = (selection, found)"
      and l: "length selection = ?n" and b: "list_all (\<lambda>s. s = 0 \<or> s = 1) selection"
    for selection found
    using shape k v sel
    by (simp add: insert_impl_4bit_def Let_def loop4 lut2_eq lookup_all_broadcast [OF b kr]
        lookup_all_broadcast [OF b vr] state_update_rows_4bit [OF l k v])
  from k v one obtain a b where ab: "key = [a]" "value = [b]"
    by (cases key; cases "value") simp_all
  have z: "map ((*) (0::int)) key @ map ((*) 0) value = [0, 0]"
    by (simp add: ab)
  show ?thesis
  proof (cases "find (\<lambda>i. ?flags ! i = 0) [0..<?n]")
    case None
    with loop have "selection_loop ?flags [0..<?n] (replicate ?n 0, 0) = (replicate ?n 0, 0)"
      by simp
    from step [OF this]
    have "insert_impl_4bit state key value
        = Inr (map2 (map2 (+)) state (replicate (length state) (replicate (Suc (Suc (Suc 0))) 0)))"
      using rows z by (simp add: list_all_iff)
    with None add_rows_none [OF rows(2)] show ?thesis by simp
  next
    case (Some i)
    then have i: "i < ?n" by (simp add: find_upt_Some)
    from Some loop
    have "selection_loop ?flags [0..<?n] (replicate ?n 0, 0) = ((replicate ?n 0)[i := 1], 1)"
      by simp
    from step [OF this]
    have "insert_impl_4bit state key value
        = Inr (map2 (map2 (+)) state (map ?U ((replicate ?n 0)[i := 1])))"
      using selection_bits [of ?n i] by simp
    also have "map ?U ((replicate ?n 0)[i := 1])
        = (replicate (length state) (replicate (Suc (Suc (Suc 0))) 0))[i := 1 # key @ value]"
      using rows z by (simp add: map_update map_times_one_eta)
    finally show ?thesis
      using Some i rows add_rows_one [OF rows(2), of i] by simp
  qed
qed

lemma sizes_4bit:
  "NUMBER_OF_KEY_CHUNKS_4bit = 1" "NUMBER_OF_VALUE_CHUNKS_4bit = 1"
  by (simp_all add: NUMBER_OF_KEY_CHUNKS_4bit_def NUMBER_OF_VALUE_CHUNKS_4bit_def
      KEY_SIZE_4bit_def VALUE_SIZE_4bit_def CHUNK_SIZE_def)

text \<open>
  \<open>_insert_impl\<close> of KVStore_4bit.py does what \<open>_insert_impl\<close> of KVStore_commented.py
  does: on flags that are 0 or 1, with the first free row \<open>i\<close> holding zero chunks, the
  result is the state with row \<open>i\<close> replaced by flag 1, the key chunk and the value chunk.
\<close>

lemma insert_impl_4bit_first_free:
  assumes shape: "has_shape STATE_SHAPE_4bit state"
      and key: "chunks_ok NUMBER_OF_KEY_CHUNKS_4bit key"
      and val: "chunks_ok NUMBER_OF_VALUE_CHUNKS_4bit value"
      and flags: "list_all (\<lambda>f. f = 0 \<or> f = 1) (get_column FLAG state)"
      and i: "i < NUMBER_OF_ENTRIES" "get_column FLAG state ! i = 0"
             "\<forall>j<i. get_column FLAG state ! j \<noteq> 0"
      and zero: "get_slice KEY_4bit state ! i = replicate NUMBER_OF_KEY_CHUNKS_4bit 0"
                "get_slice VALUE_4bit state ! i = replicate NUMBER_OF_VALUE_CHUNKS_4bit 0"
  shows "insert_impl_4bit state key value = Inr (state[i := 1 # key @ value])"
proof -
  from i have f: "find (\<lambda>i. get_column FLAG state ! i = 0) [0..<NUMBER_OF_ENTRIES] = Some i"
    by (simp add: find_upt_Some)
  from key val obtain a b where ab: "key = [a]" "value = [b]"
    by (cases key; cases "value") (simp_all add: chunks_ok_def sizes_4bit)
  from shape i(1) have l: "i < length state" and len: "length (state ! i) = Suc (Suc (Suc 0))"
    by (simp_all add: has_shape_def STATE_SHAPE_4bit_def list_all_length)
  then obtain x y z where row: "state ! i = [x, y, z]"
    by (cases "state ! i"; cases "tl (state ! i)"; cases "tl (tl (state ! i))") auto
  from zero l i(2) have "x = 0" "y = 0" "z = 0"
    by (simp_all add: get_slice_def get_column_def KEY_4bit_def VALUE_4bit_def FLAG_def sizes_4bit row)
  with row ab have "map2 (+) (state ! i) (1 # key @ value) = 1 # key @ value" by simp
  with insert_impl_4bit_result [OF shape key val flags] f show ?thesis by simp
qed

subsection \<open>\<open>_replace_impl\<close> of KVStore_4bit.py\<close>

lemma key_loop_4bit_nth:
  assumes "list_all (\<lambda>i. i < length selection) indices" and "j < length selection"
  shows "length (key_loop_4bit keys key indices selection) = length selection
       \<and> key_loop_4bit keys key indices selection ! j
           = (if j \<in> set indices
              then map (\<lambda>d. if d = 0 then 1 else 0) (map2 (-) (keys ! j) key) ! 0
              else selection ! j)"
  using assms
proof (induction indices arbitrary: selection)
  case Nil
  show ?case by simp
next
  case (Cons i indices)
  let ?s = "selection[i := map (\<lambda>d. if d = 0 then 1 else 0) (map2 (-) (keys ! i) key) ! 0]"
  from Cons.prems have "list_all (\<lambda>i. i < length ?s) indices" and "j < length ?s" by simp_all
  from Cons.IH [OF this] Cons.prems show ?case
    by (auto simp: nth_list_update)
qed

lemma key_loop_4bit_eq:
  assumes "length keys = n" and "list_all (\<lambda>k. length k = 1) keys" and "length key = 1"
  shows "key_loop_4bit keys key [0..<n] (replicate n 0) = map (\<lambda>k. if k = key then 1 else 0) keys"
proof (rule nth_equalityI)
  have all: "list_all (\<lambda>i. i < length (replicate n (0::int))) [0..<n]"
    by (simp add: list_all_iff)
  show "length (key_loop_4bit keys key [0..<n] (replicate n 0))
      = length (map (\<lambda>k. if k = key then 1 else (0::int)) keys)"
  proof (cases n)
    case 0
    with assms(1) show ?thesis by simp
  next
    case (Suc m)
    then have "0 < length (replicate n (0::int))" by simp
    from key_loop_4bit_nth [OF all this, of keys key] assms(1) show ?thesis by simp
  qed
next
  fix j
  assume "j < length (key_loop_4bit keys key [0..<n] (replicate n 0))"
  moreover have "length (key_loop_4bit keys key [0..<n] (replicate n 0)) = n"
  proof (cases n)
    case 0
    then show ?thesis by simp
  next
    case (Suc m)
    then have "0 < length (replicate n (0::int))" by simp
    from key_loop_4bit_nth [OF _ this, of "[0..<n]" keys key] show ?thesis
      by (simp add: list_all_iff)
  qed
  ultimately have j: "j < n" by simp
  then have jl: "j < length (replicate n (0::int))" by simp
  have all: "list_all (\<lambda>i. i < length (replicate n (0::int))) [0..<n]"
    by (simp add: list_all_iff)
  from assms j obtain a where a: "keys ! j = [a]"
    by (cases "keys ! j") (auto simp: list_all_length)
  from assms(3) obtain b where b: "key = [b]" by (cases key) simp_all
  from key_loop_4bit_nth [OF all jl, of keys key] j a b assms(1)
  show "key_loop_4bit keys key [0..<n] (replicate n 0) ! j
      = map (\<lambda>k. if k = key then 1 else 0) keys ! j"
    by simp
qed

text \<open>
  \<open>_replace_impl\<close> of KVStore_4bit.py does what \<open>_replace_impl\<close> of KVStore_commented.py
  does: a row whose key chunk equals the key's gets the given value chunk and keeps its
  flag and its key chunk; every other row is returned as it was.
\<close>

lemma replace_impl_4bit_result:
  assumes shape: "has_shape STATE_SHAPE_4bit state"
      and key: "chunks_ok NUMBER_OF_KEY_CHUNKS_4bit key"
      and val: "chunks_ok NUMBER_OF_VALUE_CHUNKS_4bit value"
      and rows: "list_all (chunks_ok NUMBER_OF_VALUE_CHUNKS_4bit) (get_slice VALUE_4bit state)"
  shows "replace_impl_4bit state key value
       = Inr (map (\<lambda>row. if take 1 (drop 1 row) = key then take 2 row @ value else row) state)"
proof -
  let ?kf = "\<lambda>row. take 1 (drop 1 row) :: int list"
  let ?vf = "drop 2 :: int list \<Rightarrow> int list"
  let ?sel = "\<lambda>row. if ?kf row = key then 1 else (0::int)"
  have n: "length state = NUMBER_OF_ENTRIES"
    and w: "list_all (\<lambda>row. length row = Suc (Suc (Suc 0))) state"
    using shape by (simp_all add: has_shape_def STATE_SHAPE_4bit_def)
  from key val have k: "length key = 1" and v: "length value = 1"
    and vr: "list_all (\<lambda>c. 0 \<le> c \<and> c < 2 ^ CHUNK_SIZE) value"
    by (simp_all add: chunks_ok_def sizes_4bit)
  have keys: "get_slice KEY_4bit state = map ?kf state"
    by (simp add: get_slice_def KEY_4bit_def sizes_4bit)
  have vals: "get_slice VALUE_4bit state = map ?vf state"
    by (simp add: get_slice_def VALUE_4bit_def sizes_4bit numeral_2_eq_2)
  have kl: "list_all (\<lambda>k. length k = 1) (map ?kf state)"
    using w by (auto simp: list_all_iff)
  have sel: "key_loop_4bit (get_slice KEY_4bit state) key [0..<NUMBER_OF_ENTRIES]
               (replicate NUMBER_OF_ENTRIES 0)
           = map ?sel state"
    unfolding keys using key_loop_4bit_eq [OF _ kl k, of NUMBER_OF_ENTRIES] n
    by (simp add: comp_def)
  have b: "list_all (\<lambda>s. s = 0 \<or> s = 1) (map ?sel state)"
    by (rule selection_is_bits)
  have b': "list_all (\<lambda>s. s = 0 \<or> s = 1) (map (\<lambda>s. 1 - s) (map ?sel state))"
    by (rule inverse_selection_is_bits)
  from rows have r: "list_all (list_all (\<lambda>c. 0 \<le> c \<and> c < 2 ^ CHUNK_SIZE)) (get_slice VALUE_4bit state)"
    by (simp add: list_all_iff chunks_ok_def)
  have setv: "lookup_all lut2 (map (\<lambda>s. map (\<lambda>v. s * 2 ^ CHUNK_SIZE + v) value) (map ?sel state))
            = Inr (map (\<lambda>s. map (\<lambda>v. s * v) value) (map ?sel state))"
    unfolding lut2_eq using b vr by (rule lookup_all_broadcast)
  have kept: "lookup_all lut2
                (map2 (\<lambda>s vs. map (\<lambda>v. s * 2 ^ CHUNK_SIZE + v) vs) (map (\<lambda>s. 1 - s) (map ?sel state))
                   (get_slice VALUE_4bit state))
            = Inr (map2 (\<lambda>s vs. map (\<lambda>v. s * v) vs) (map (\<lambda>s. 1 - s) (map ?sel state))
                   (get_slice VALUE_4bit state))"
    unfolding lut2_eq using b' r by (rule lookup_all_rowwise)
  let ?nv = "\<lambda>row. map2 (+) (map (\<lambda>v. ?sel row * v) value) (map (\<lambda>v. (1 - ?sel row) * v) (?vf row))"
  have new_value:
    "map2 (map2 (+))
       (map (\<lambda>s. map (\<lambda>v. s * v) value) (map ?sel state))
       (map2 (\<lambda>s vs. map (\<lambda>v. s * v) vs) (map (\<lambda>s. 1 - s) (map ?sel state)) (get_slice VALUE_4bit state))
     = map ?nv state"
    by (simp add: vals map2_same comp_def)
  have flag: "set_column FLAG (zeros STATE_SHAPE_4bit) (get_column FLAG state)
            = map (\<lambda>row. [row ! 0, 0, 0]) state"
    using n
    by (simp add: set_column_def get_column_def zeros_def STATE_SHAPE_4bit_def FLAG_def
        map2_replicate_left comp_def)
  have keyc: "set_slice KEY_4bit (map (\<lambda>row. [row ! 0, 0, 0]) state) (map ?kf state)
            = map (\<lambda>row. row ! 0 # ?kf row @ [0]) state"
    by (simp add: set_slice_def KEY_4bit_def sizes_4bit map2_same)
  have valc: "set_slice VALUE_4bit (map (\<lambda>row. row ! 0 # ?kf row @ [0]) state) (map ?nv state)
            = map (\<lambda>row. take 2 (row ! 0 # ?kf row @ [0]) @ ?nv row) state"
    by (simp add: set_slice_def VALUE_4bit_def sizes_4bit map2_same numeral_2_eq_2)
  have "replace_impl_4bit state key value
      = Inr (map (\<lambda>row. take 2 (row ! 0 # ?kf row @ [0]) @ ?nv row) state)"
    using shape k v
    by (simp only: replace_impl_4bit_def Let_def sel setv kept new_value keys [symmetric] flag
        keyc [unfolded keys [symmetric]] valc [unfolded keys [symmetric]]
        sizes_4bit simp_thms if_True sum.case)
  also have "map (\<lambda>row. take 2 (row ! 0 # ?kf row @ [0]) @ ?nv row) state
      = map (\<lambda>row. if ?kf row = key then take 2 row @ value else row) state"
  proof (rule map_cong [OF refl])
    fix row assume "row \<in> set state"
    with w have "length row = Suc (Suc (Suc 0))" by (simp add: list_all_iff)
    then obtain x y z where row: "row = [x, y, z]"
      by (cases row; cases "tl row"; cases "tl (tl row)") auto
    from v obtain c where c: "value = [c]" by (cases "value") simp_all
    show "take 2 (row ! 0 # ?kf row @ [0]) @ ?nv row
        = (if ?kf row = key then take 2 row @ value else row)"
      by (simp add: row c numeral_2_eq_2)
  qed
  finally show ?thesis .
qed

end
